theory Spec2Isabelle
  imports Main
begin

section \<open>The SIEVE cache of src/index.ts\<close>

text \<open>
  The cache is a doubly linked list of node objects, a key index and a hand pointer.
  Node objects live in a store: a list of nodes, a reference being the position of the
  node in the list. \<open>new Node\<close> appends to the store, so that a new reference is fresh;
  a node that leaves the chain stays in the store, as the object does for whoever still
  holds a reference to it. \<open>null\<close> is \<open>None\<close>. The numbers \<open>size\<close> and \<open>capacity\<close> are
  integers (the data model of the specification: capacity is an integer, size a count).
  The names are those of the source, but for \<open>val\<close> and \<open>nxt\<close> (the fields \<open>value\<close> and
  \<open>next\<close>), \<open>size_c\<close>, \<open>map_c\<close> and \<open>set_c\<close> (\<open>size\<close>, \<open>map\<close> and \<open>set\<close>), and the methods
  \<open>_addToHead\<close>, \<open>_removeNode\<close> and \<open>_evict\<close>, written without the underscore.
\<close>

subsection \<open>Node\<close>

record 'v Node =
  key :: string
  val :: 'v
  prev :: "nat option"
  nxt :: "nat option"
  visited :: bool

definition Node_new :: "string \<Rightarrow> 'v \<Rightarrow> 'v Node" where
  "Node_new k v = \<lparr>key = k, val = v, prev = None, nxt = None, visited = False\<rparr>"

subsection \<open>SieveCache\<close>

record 'v SieveCache =
  heap :: "'v Node list"
  head :: "nat option"
  tail :: "nat option"
  hand :: "nat option"
  size_c :: int
  capacity :: int
  map_c :: "string \<rightharpoonup> nat"

text \<open>The field initialisers and the constructor body; the store starts empty.\<close>

definition SieveCache_new :: "int \<Rightarrow> 'v SieveCache" where
  "SieveCache_new c =
     \<lparr>heap = [], head = None, tail = None, hand = None, size_c = 0, capacity = c,
      map_c = Map.empty\<rparr>"

text \<open>
  A call of the constructor either throws (\<open>None\<close>) or returns the object. The body has
  two assignments and no \<open>throw\<close>.
\<close>

definition constructor :: "int \<Rightarrow> 'v SieveCache option" where
  "constructor c = Some (SieveCache_new c)"

text \<open>\<open>_addToHead\<close>, statement by statement.\<close>

definition addToHead :: "'v SieveCache \<Rightarrow> nat \<Rightarrow> 'v SieveCache" where
  "addToHead s node =
     (let h1 = (heap s)[node := (heap s ! node)\<lparr>nxt := head s\<rparr>];
          h2 = h1[node := (h1 ! node)\<lparr>prev := None\<rparr>];
          h3 = (case head s of
                  Some old \<Rightarrow> h2[old := (h2 ! old)\<lparr>prev := Some node\<rparr>]
                | None \<Rightarrow> h2);
          s1 = s\<lparr>heap := h3, head := Some node\<rparr>
      in (case tail s1 of None \<Rightarrow> s1\<lparr>tail := Some node\<rparr> | Some t \<Rightarrow> s1))"

text \<open>\<open>_removeNode\<close>, statement by statement; each read sees the writes before it.\<close>

definition removeNode :: "'v SieveCache \<Rightarrow> nat \<Rightarrow> 'v SieveCache" where
  "removeNode s node =
     (let s1 = (case prev (heap s ! node) of
                  Some p \<Rightarrow> s\<lparr>heap := (heap s)[p := (heap s ! p)\<lparr>nxt := nxt (heap s ! node)\<rparr>]\<rparr>
                | None \<Rightarrow> s\<lparr>head := nxt (heap s ! node)\<rparr>);
          s2 = (case nxt (heap s1 ! node) of
                  Some n \<Rightarrow> s1\<lparr>heap := (heap s1)[n := (heap s1 ! n)\<lparr>prev := prev (heap s1 ! node)\<rparr>]\<rparr>
                | None \<Rightarrow> s1\<lparr>tail := prev (heap s1 ! node)\<rparr>);
          h3 = (heap s2)[node := (heap s2 ! node)\<lparr>nxt := None\<rparr>];
          h4 = h3[node := (h3 ! node)\<lparr>prev := None\<rparr>]
      in s2\<lparr>heap := h4\<rparr>)"

text \<open>\<open>delete\<close>: the result and the cache after the call.\<close>

definition delete :: "'v SieveCache \<Rightarrow> string \<Rightarrow> bool \<times> 'v SieveCache" where
  "delete s k =
     (case map_c s k of
        None \<Rightarrow> (False, s)
      | Some node \<Rightarrow>
          (let s1 = (if hand s = Some node then s\<lparr>hand := prev (heap s ! node)\<rparr> else s);
               s2 = s1\<lparr>map_c := (map_c s1)(k := None)\<rparr>;
               s3 = removeNode s2 node
           in (True, s3\<lparr>size_c := size_c s3 - 1\<rparr>)))"

text \<open>
  The loop of \<open>_evict\<close>: \<open>while (object && object.visited)\<close>, with the store, the tail
  and the cursor; it returns the store and the cursor it stops at. Every round clears
  one flag, which is why the loop ends on every store. A reference is a position of the
  store; a number beyond the store is no reference, the program holds none, and the test
  \<open>r < length h\<close> only says what the function does there: it stops.
\<close>

function evict_loop ::
  "'v Node list \<Rightarrow> nat option \<Rightarrow> nat option \<Rightarrow> 'v Node list \<times> nat option" where
  "evict_loop h t object =
     (case object of
        None \<Rightarrow> (h, None)
      | Some r \<Rightarrow>
          if r < length h \<and> visited (h ! r) then
            (let h1 = h[r := (h ! r)\<lparr>visited := False\<rparr>];
                 object1 = prev (h1 ! r)
             in evict_loop h1 t (case object1 of None \<Rightarrow> t | Some p \<Rightarrow> Some p))
          else (h, Some r))"
  by pat_completeness auto

definition nvisited :: "'v Node list \<Rightarrow> nat" where
  "nvisited h = length (filter visited h)"

lemma nvisited_clear:
  assumes "r < length h" and "visited (h ! r)"
  shows "nvisited (h[r := (h ! r)\<lparr>visited := False\<rparr>]) < nvisited h"
proof -
  have h: "h = take r h @ (h ! r) # drop (Suc r) h"
    using assms(1) by (simp add: id_take_nth_drop)
  have u: "h[r := (h ! r)\<lparr>visited := False\<rparr>]
             = take r h @ ((h ! r)\<lparr>visited := False\<rparr>) # drop (Suc r) h"
    using assms(1) by (simp add: upd_conv_take_nth_drop)
  have "nvisited h = nvisited (take r h) + 1 + nvisited (drop (Suc r) h)"
    using assms(2) by (subst h) (simp add: nvisited_def)
  moreover have "nvisited (h[r := (h ! r)\<lparr>visited := False\<rparr>])
                   = nvisited (take r h) + nvisited (drop (Suc r) h)"
    by (subst u) (simp add: nvisited_def)
  ultimately show ?thesis by simp
qed

termination evict_loop
  by (relation "measure (\<lambda>(h, t, object). nvisited h)") (auto simp: nvisited_clear)

declare evict_loop.simps [simp del]

text \<open>The number of rounds of that loop: the same recursion, counting.\<close>

function evict_steps :: "'v Node list \<Rightarrow> nat option \<Rightarrow> nat option \<Rightarrow> nat" where
  "evict_steps h t object =
     (case object of
        None \<Rightarrow> 0
      | Some r \<Rightarrow>
          if r < length h \<and> visited (h ! r) then
            (let h1 = h[r := (h ! r)\<lparr>visited := False\<rparr>];
                 object1 = prev (h1 ! r)
             in Suc (evict_steps h1 t (case object1 of None \<Rightarrow> t | Some p \<Rightarrow> Some p)))
          else 0)"
  by pat_completeness auto

termination evict_steps
  by (relation "measure (\<lambda>(h, t, object). nvisited h)") (auto simp: nvisited_clear)

declare evict_steps.simps [simp del]

text \<open>\<open>_evict\<close>: the start of the scan, the loop, the fallback, the removal.\<close>

definition evict_remove :: "'v SieveCache \<Rightarrow> nat \<Rightarrow> 'v SieveCache" where
  "evict_remove s object =
     snd (delete (s\<lparr>hand := prev (heap s ! object)\<rparr>) (key (heap s ! object)))"

text \<open>\<open>this.hand || this.tail\<close>, where the scan starts.\<close>

definition scan_start :: "'v SieveCache \<Rightarrow> nat option" where
  "scan_start s = (case hand s of Some r \<Rightarrow> Some r | None \<Rightarrow> tail s)"

definition evict :: "'v SieveCache \<Rightarrow> 'v SieveCache" where
  "evict s =
     (let object = scan_start s;
          (h, object1) = evict_loop (heap s) (tail s) object;
          s1 = s\<lparr>heap := h\<rparr>
      in (case object1 of
            Some r \<Rightarrow> evict_remove s1 r
          | None \<Rightarrow> (case tail s1 of None \<Rightarrow> s1 | Some t \<Rightarrow> evict_remove s1 t)))"

text \<open>\<open>set\<close>: the reference of the node it returns and the cache after the call.\<close>

definition set_c :: "'v SieveCache \<Rightarrow> string \<Rightarrow> 'v \<Rightarrow> nat \<times> 'v SieveCache" where
  "set_c s k v =
     (case map_c s k of
        Some existing \<Rightarrow>
          (let h1 = (heap s)[existing := (heap s ! existing)\<lparr>val := v\<rparr>];
               h2 = h1[existing := (h1 ! existing)\<lparr>visited := True\<rparr>]
           in (existing, s\<lparr>heap := h2\<rparr>))
      | None \<Rightarrow>
          (let s1 = (if size_c s = capacity s then evict s else s);
               node = length (heap s1);
               s2 = s1\<lparr>heap := heap s1 @ [Node_new k v]\<rparr>;
               s3 = s2\<lparr>map_c := (map_c s2)(k \<mapsto> node)\<rparr>;
               s4 = addToHead s3 node
           in (node, s4\<lparr>size_c := size_c s4 + 1\<rparr>)))"

text \<open>\<open>get\<close>: \<open>None\<close> is \<open>undefined\<close>.\<close>

definition get :: "'v SieveCache \<Rightarrow> string \<Rightarrow> 'v option \<times> 'v SieveCache" where
  "get s k =
     (case map_c s k of
        None \<Rightarrow> (None, s)
      | Some node \<Rightarrow>
          (let h1 = (heap s)[node := (heap s ! node)\<lparr>visited := True\<rparr>]
           in (Some (val (h1 ! node)), s\<lparr>heap := h1\<rparr>)))"

definition getNode :: "'v SieveCache \<Rightarrow> string \<Rightarrow> nat option" where
  "getNode s k = map_c s k"

definition clear :: "'v SieveCache \<Rightarrow> 'v SieveCache" where
  "clear s = s\<lparr>head := None, tail := None, hand := None, map_c := Map.empty, size_c := 0\<rparr>"

text \<open>
  The generator, run to its end: the pairs it yields, in order. The loop follows \<open>next\<close>
  until \<open>null\<close> and has no other exit, so a run that never ends is \<open>None\<close>.
\<close>

partial_function (option) iterate ::
  "'v Node list \<Rightarrow> nat option \<Rightarrow> (string \<times> 'v) list \<Rightarrow> (string \<times> 'v) list option" where
  "iterate h cursor acc =
     (case cursor of
        None \<Rightarrow> Some acc
      | Some r \<Rightarrow> iterate h (nxt (h ! r)) (acc @ [(key (h ! r), val (h ! r))]))"

declare iterate.simps [code]

definition iterator :: "'v SieveCache \<Rightarrow> (string \<times> 'v) list option" where
  "iterator s = iterate (heap s) (head s) []"

text \<open>\<open>toArray\<close>: the pairs of the generator, each copied, and the cache after the call.\<close>

definition toArray :: "'v SieveCache \<Rightarrow> (string \<times> 'v) list option \<times> 'v SieveCache" where
  "toArray s = (map_option (map (\<lambda>(k, v). (k, v))) (iterator s), s)"

subsection \<open>Sequences of calls\<close>

datatype 'v call = Set string 'v | Get string | GetNode string | Delete string | Clear | ToArray

fun step :: "'v SieveCache \<Rightarrow> 'v call \<Rightarrow> 'v SieveCache" where
  "step s (Set k v) = snd (set_c s k v)"
| "step s (Get k) = snd (get s k)"
| "step s (GetNode k) = s"
| "step s (Delete k) = snd (delete s k)"
| "step s Clear = clear s"
| "step s ToArray = snd (toArray s)"

definition run :: "'v SieveCache \<Rightarrow> 'v call list \<Rightarrow> 'v SieveCache" where
  "run s cs = foldl step s cs"

section \<open>The eviction scan as the specification words it\<close>

text \<open>
  Section 4.1 of the specification, steps 1 to 5, for the comparison with \<open>evict\<close>:
  the cursor is a node, never \<open>null\<close>; an empty chain is a no-op (step 3); the scan
  clears the flag of the cursor and moves to its predecessor, or to the tail when there
  is none, until the flag of the cursor is false; the hand becomes the predecessor of
  that victim, which is removed by the path of \<open>delete\<close>.
\<close>

function scan_spec :: "'v Node list \<Rightarrow> nat \<Rightarrow> nat \<Rightarrow> 'v Node list \<times> nat" where
  "scan_spec h t cursor =
     (if cursor < length h \<and> visited (h ! cursor) then
        scan_spec (h[cursor := (h ! cursor)\<lparr>visited := False\<rparr>]) t
          (case prev (h ! cursor) of None \<Rightarrow> t | Some p \<Rightarrow> p)
      else (h, cursor))"
  by pat_completeness auto

termination scan_spec
  by (relation "measure (\<lambda>(h, t, cursor). nvisited h)") (auto simp: nvisited_clear)

declare scan_spec.simps [simp del]

definition evict_spec :: "'v SieveCache \<Rightarrow> 'v SieveCache" where
  "evict_spec s =
     (case tail s of
        None \<Rightarrow> s
      | Some t \<Rightarrow>
          (let cursor = (case hand s of Some r \<Rightarrow> r | None \<Rightarrow> t);
               (h, victim) = scan_spec (heap s) t cursor;
               s1 = s\<lparr>heap := h, hand := prev (h ! victim)\<rparr>
           in snd (delete s1 (key (h ! victim)))))"

section \<open>The chain as a list of references\<close>

text \<open>
  The invariant of the cache is stated against the list of the references of the chain,
  from head to tail: every node of the list has the node before it as \<open>prev\<close> and the
  node after it as \<open>next\<close>.
\<close>

text \<open>The first and the last element of a list, \<open>None\<close> for the empty list.\<close>

definition hdopt :: "'a list \<Rightarrow> 'a option" where
  "hdopt xs = (case xs of [] \<Rightarrow> None | x # _ \<Rightarrow> Some x)"

definition lastopt :: "'a list \<Rightarrow> 'a option" where
  "lastopt xs = (if xs = [] then None else Some (last xs))"

text \<open>The element before and the element after \<open>r\<close> in a list.\<close>

fun before :: "'a list \<Rightarrow> 'a \<Rightarrow> 'a option" where
  "before (x # y # ys) r = (if y = r then Some x else before (y # ys) r)"
| "before _ r = None"

fun after :: "'a list \<Rightarrow> 'a \<Rightarrow> 'a option" where
  "after (x # y # ys) r = (if x = r then Some y else after (y # ys) r)"
| "after _ r = None"

text \<open>
  The element the scan goes to from \<open>x\<close>: the one before \<open>x\<close>, or the last one when \<open>x\<close> is
  the first.
\<close>

definition cpred :: "'a list \<Rightarrow> 'a \<Rightarrow> 'a option" where
  "cpred ns x = (case before ns x of None \<Rightarrow> lastopt ns | Some p \<Rightarrow> Some p)"

text \<open>The nodes of \<open>ns\<close> are linked in the order of \<open>ns\<close>, each one once.\<close>

definition dll :: "'v Node list \<Rightarrow> nat list \<Rightarrow> bool" where
  "dll h ns \<longleftrightarrow>
     distinct ns \<and>
     (\<forall>r \<in> set ns. r < length h \<and> prev (h ! r) = before ns r \<and> nxt (h ! r) = after ns r)"

text \<open>
  The invariant: the chain is \<open>ns\<close>, from the head to the tail; the hand is a node of the
  chain or \<open>null\<close>; the size is the length of the chain; the index maps every key of a
  node of the chain to that node, and nothing else.
\<close>

definition cache_inv :: "'v SieveCache \<Rightarrow> nat list \<Rightarrow> bool" where
  "cache_inv s ns \<longleftrightarrow>
     dll (heap s) ns \<and> head s = hdopt ns \<and> tail s = lastopt ns \<and>
     (\<forall>r. hand s = Some r \<longrightarrow> r \<in> set ns) \<and>
     size_c s = int (length ns) \<and>
     (\<forall>k r. map_c s k = Some r \<longleftrightarrow> r \<in> set ns \<and> key (heap s ! r) = k)"

text \<open>
  What a scan does to the store: every node is as it was, or it is a node of \<open>S\<close> whose
  flag was true and is now false.
\<close>

definition swept :: "'v Node list \<Rightarrow> 'v Node list \<Rightarrow> nat set \<Rightarrow> bool" where
  "swept h h' S \<longleftrightarrow>
     length h' = length h \<and>
     (\<forall>x. h' ! x = h ! x \<or> (x \<in> S \<and> visited (h ! x) \<and> h' ! x = (h ! x)\<lparr>visited := False\<rparr>))"

text \<open>
  The statements of \<open>set\<close> after the eviction: the new node, its entry in the index,
  \<open>_addToHead\<close>, the size.
\<close>

definition insert_new :: "'v SieveCache \<Rightarrow> string \<Rightarrow> 'v \<Rightarrow> 'v SieveCache" where
  "insert_new s k v =
     (let node = length (heap s);
          s4 = addToHead (s\<lparr>heap := heap s @ [Node_new k v],
                             map_c := (map_c s)(k \<mapsto> node)\<rparr>) node
      in s4\<lparr>size_c := size_c s4 + 1\<rparr>)"

text \<open>The pairs of the nodes of a list of references, in the order of the list.\<close>

definition entries :: "'v Node list \<Rightarrow> nat list \<Rightarrow> (string \<times> 'v) list" where
  "entries h ns = map (\<lambda>r. (key (h ! r), val (h ! r))) ns"

section \<open>The invariant and the calls\<close>

lemmas cache_defs =
  run_def SieveCache_new_def set_c_def get_def evict_def scan_start_def evict_remove_def
  delete_def removeNode_def addToHead_def Node_new_def clear_def toArray_def iterator_def
  Let_def

lemma hdopt_simps [simp]: "hdopt [] = None" "hdopt (x # xs) = Some x"
  by (simp_all add: hdopt_def)

lemma lastopt_simps [simp]: "lastopt [] = None" "lastopt (x # xs) = Some (last (x # xs))"
  by (simp_all add: lastopt_def)

lemma hdopt_in: "hdopt ns = Some x \<Longrightarrow> x \<in> set ns"
  by (cases ns) auto

lemma lastopt_in: "lastopt ns = Some x \<Longrightarrow> x \<in> set ns"
  by (cases ns) (auto split: if_splits)

lemma before_in: "before ns r = Some x \<Longrightarrow> x \<in> set ns \<and> r \<in> set ns"
  by (induction ns r rule: before.induct) (auto split: if_splits)

lemma after_in: "after ns r = Some x \<Longrightarrow> x \<in> set ns \<and> r \<in> set ns"
  by (induction ns r rule: after.induct) (auto split: if_splits)

lemma before_notin: "r \<notin> set ns \<Longrightarrow> before ns r = None"
  by (induction ns r rule: before.induct) auto

lemma after_notin: "r \<notin> set ns \<Longrightarrow> after ns r = None"
  by (induction ns r rule: after.induct) auto

lemma before_Cons:
  "n \<notin> set ns \<Longrightarrow> before (n # ns) x = (if hdopt ns = Some x then Some n else before ns x)"
  by (cases ns) (auto simp: before_notin)

lemma after_Cons:
  "n \<notin> set ns \<Longrightarrow> after (n # ns) x = (if x = n then hdopt ns else after ns x)"
  by (cases ns) (auto simp: after_notin)

lemma before_hd: "distinct ns \<Longrightarrow> hdopt ns = Some r \<Longrightarrow> before ns r = None"
  by (cases ns) (auto simp: before_Cons before_notin dest: hdopt_in split: if_splits)

lemma before_after: "distinct ns \<Longrightarrow> before ns x = Some r \<longleftrightarrow> after ns r = Some x"
proof (induction ns)
  case Nil
  then show ?case by simp
next
  case (Cons n ns)
  then show ?case
    by (cases ns) (auto simp: before_Cons after_Cons dest: before_in after_in hdopt_in)
qed

lemma before_None: "distinct ns \<Longrightarrow> r \<in> set ns \<Longrightarrow> before ns r = None \<longleftrightarrow> hdopt ns = Some r"
proof (induction ns)
  case Nil
  then show ?case by simp
next
  case (Cons n ns)
  then show ?case
    by (cases ns) (auto simp: before_Cons before_notin dest: hdopt_in)
qed

lemma after_None: "distinct ns \<Longrightarrow> r \<in> set ns \<Longrightarrow> after ns r = None \<longleftrightarrow> lastopt ns = Some r"
proof (induction ns)
  case Nil
  then show ?case by simp
next
  case (Cons n ns)
  then show ?case
    by (cases ns) (auto simp: after_Cons)
qed

lemma hdopt_remove1:
  "distinct ns \<Longrightarrow> hdopt (remove1 r ns) = (if hdopt ns = Some r then after ns r else hdopt ns)"
  by (cases ns) (auto simp: after_Cons)

lemma lastopt_remove1:
  "distinct ns \<Longrightarrow> lastopt (remove1 r ns) = (if lastopt ns = Some r then before ns r else lastopt ns)"
proof (induction ns)
  case Nil
  then show ?case by simp
next
  case (Cons n ns)
  show ?case
  proof (cases ns)
    case Nil
    then show ?thesis by auto
  next
    case (Cons m ms)
    with Cons.prems Cons.IH show ?thesis
      by (auto simp: before_Cons lastopt_def split: if_splits)
  qed
qed

lemma before_remove1:
  "distinct ns \<Longrightarrow> x \<noteq> r \<Longrightarrow>
   before (remove1 r ns) x = (if before ns x = Some r then before ns r else before ns x)"
proof (induction ns)
  case Nil
  then show ?case by simp
next
  case (Cons n ns)
  have d: "distinct ns" "n \<notin> set ns" using Cons.prems by auto
  have nr: "n \<notin> set (remove1 r ns)" using d by (auto dest: notin_set_remove1)
  show ?case
  proof (cases "n = r")
    case True
    with Cons.prems d show ?thesis
      by (auto simp: before_Cons before_notin before_None before_hd dest: before_in)
  next
    case False
    with Cons d nr show ?thesis
      by (auto simp: before_Cons hdopt_remove1 before_hd before_after dest: before_in after_in)
  qed
qed

lemma after_remove1:
  "distinct ns \<Longrightarrow> x \<noteq> r \<Longrightarrow>
   after (remove1 r ns) x = (if after ns x = Some r then after ns r else after ns x)"
proof (induction ns)
  case Nil
  then show ?case by simp
next
  case (Cons n ns)
  have d: "distinct ns" "n \<notin> set ns" using Cons.prems by auto
  have nr: "n \<notin> set (remove1 r ns)" using d by (auto dest: notin_set_remove1)
  show ?case
  proof (cases "n = r")
    case True
    with Cons.prems d show ?thesis
      by (auto simp: after_Cons after_notin dest: after_in)
  next
    case False
    with Cons d nr show ?thesis
      by (auto simp: after_Cons hdopt_remove1 dest: after_in)
  qed
qed

lemma before_neq: "distinct ns \<Longrightarrow> before ns r \<noteq> Some r"
proof (induction ns)
  case Nil
  then show ?case by simp
next
  case (Cons n ns)
  then show ?case
    by (auto simp: before_Cons dest: hdopt_in)
qed

lemma after_neq: "distinct ns \<Longrightarrow> after ns r \<noteq> Some r"
  using before_after before_neq by metis

lemma inv_new: "cache_inv (SieveCache_new c) []"
  by (simp add: cache_inv_def dll_def SieveCache_new_def)

lemma inv_clear: "cache_inv (clear s) []"
  by (simp add: cache_inv_def dll_def clear_def)

lemma inv_get: "cache_inv s ns \<Longrightarrow> cache_inv (snd (get s k)) ns"
  by (auto simp: cache_inv_def dll_def get_def Let_def nth_list_update split: option.splits)

lemma set_c_existing:
  "map_c s k = Some r \<Longrightarrow>
   set_c s k v = (r, s\<lparr>heap := (heap s)[r := (heap s ! r)\<lparr>val := v, visited := True\<rparr>]\<rparr>)"
  by (cases "r < length (heap s)") (simp_all add: set_c_def Let_def list_update_beyond)

lemma inv_set_existing:
  "cache_inv s ns \<Longrightarrow> map_c s k = Some r \<Longrightarrow> cache_inv (snd (set_c s k v)) ns"
  by (auto simp: set_c_existing cache_inv_def dll_def nth_list_update)

lemma removeNode_fields:
  "hand (removeNode s r) = hand s" "map_c (removeNode s r) = map_c s"
  "size_c (removeNode s r) = size_c s" "capacity (removeNode s r) = capacity s"
  "length (heap (removeNode s r)) = length (heap s)"
  by (simp_all add: removeNode_def Let_def split: option.splits)

lemma removeNode_head:
  assumes "dll (heap s) ns" "r \<in> set ns"
  shows "head (removeNode s r) = (if before ns r = None then after ns r else head s)"
    and "tail (removeNode s r) = (if after ns r = None then before ns r else tail s)"
proof -
  have d: "distinct ns" and hr: "r < length (heap s)" "prev (heap s ! r) = before ns r"
    "nxt (heap s ! r) = after ns r"
    using assms by (auto simp: dll_def)
  have pn: "\<And>p. before ns r = Some p \<Longrightarrow> p \<noteq> r" using before_neq [OF d] by auto
  show "head (removeNode s r) = (if before ns r = None then after ns r else head s)"
    using hr by (auto simp: removeNode_def Let_def split: option.splits)
  show "tail (removeNode s r) = (if after ns r = None then before ns r else tail s)"
    using hr pn by (auto simp: removeNode_def Let_def nth_list_update split: option.splits)
qed

lemma before_after_neq:
  assumes "distinct ns" "before ns r = Some p"
  shows "after ns r \<noteq> Some p"
proof
  assume a: "after ns r = Some p"
  from assms have "after ns p = Some r" by (simp add: before_after)
  moreover from a assms(1) have "before ns p = Some r" by (simp add: before_after)
  ultimately show False
    using assms
  proof (induction ns)
    case Nil
    then show ?case by simp
  next
    case (Cons n ns)
    then show ?case
      by (cases ns) (auto simp: before_Cons after_Cons split: if_splits dest: before_in after_in hdopt_in)
  qed
qed

lemma removeNode_other:
  assumes "dll (heap s) ns" "r \<in> set ns" "x \<noteq> r"
  shows "key (heap (removeNode s r) ! x) = key (heap s ! x)
    \<and> val (heap (removeNode s r) ! x) = val (heap s ! x)
    \<and> visited (heap (removeNode s r) ! x) = visited (heap s ! x)
    \<and> prev (heap (removeNode s r) ! x)
           = (if after ns r = Some x then before ns r else prev (heap s ! x))
    \<and> nxt (heap (removeNode s r) ! x)
           = (if before ns r = Some x then after ns r else nxt (heap s ! x))"
proof -
  have d: "distinct ns" and hr: "r < length (heap s)" "prev (heap s ! r) = before ns r"
    "nxt (heap s ! r) = after ns r"
    using assms by (auto simp: dll_def)
  have pn: "\<And>p. before ns r = Some p \<Longrightarrow> p \<noteq> r \<and> p < length (heap s)"
    using before_neq [OF d] assms(1) by (auto simp: dll_def dest: before_in)
  have an: "\<And>p. after ns r = Some p \<Longrightarrow> p \<noteq> r \<and> p < length (heap s)"
    using after_neq [OF d] assms(1) by (auto simp: dll_def dest: after_in)
  note ba = before_after_neq [OF d]
  show ?thesis
  proof (cases "before ns r")
    case None
    note b = this
    show ?thesis
    proof (cases "after ns r")
      case None
      with b hr assms(3) show ?thesis
        by (simp add: removeNode_def Let_def nth_list_update)
    next
      case (Some n)
      with b hr assms(3) an [OF Some] show ?thesis
        by (simp add: removeNode_def Let_def nth_list_update)
    qed
  next
    case (Some p)
    note b = this
    show ?thesis
    proof (cases "after ns r")
      case None
      with b hr assms(3) pn [OF b] show ?thesis
        by (simp add: removeNode_def Let_def nth_list_update)
    next
      case (Some n)
      with b hr assms(3) an [OF Some] pn [OF b] ba [OF b] show ?thesis
        by (simp add: removeNode_def Let_def nth_list_update)
    qed
  qed
qed

lemma delete_absent: "map_c s k = None \<Longrightarrow> delete s k = (False, s)"
  by (simp add: delete_def)

lemma delete_present:
  "map_c s k = Some r \<Longrightarrow>
   delete s k =
     (True, (removeNode (s\<lparr>hand := (if hand s = Some r then prev (heap s ! r) else hand s),
                            map_c := (map_c s)(k := None)\<rparr>) r)
            \<lparr>size_c := size_c s - 1\<rparr>)"
  by (simp add: delete_def Let_def removeNode_fields)

lemma inv_delete:
  assumes inv: "cache_inv s ns" and m: "map_c s k = Some r"
  shows "cache_inv (snd (delete s k)) (remove1 r ns)"
proof -
  let ?s2 = "s\<lparr>hand := (if hand s = Some r then prev (heap s ! r) else hand s),
               map_c := (map_c s)(k := None)\<rparr>"
  let ?s' = "(removeNode ?s2 r)\<lparr>size_c := size_c s - 1\<rparr>"
  have s': "snd (delete s k) = ?s'" using m by (simp add: delete_present)
  have dl: "dll (heap s) ns" and d: "distinct ns"
    and hd: "head s = hdopt ns" and tl: "tail s = lastopt ns"
    and hnd: "\<And>x. hand s = Some x \<Longrightarrow> x \<in> set ns"
    and sz: "size_c s = int (length ns)"
    and mp: "\<And>k x. map_c s k = Some x \<longleftrightarrow> x \<in> set ns \<and> key (heap s ! x) = k"
    using inv by (auto simp: cache_inv_def dll_def)
  have r: "r \<in> set ns" and kr: "key (heap s ! r) = k" using m mp by auto
  have dl2: "dll (heap ?s2) ns" using dl by simp
  note other = removeNode_other [OF dl2 r]
  have links: "\<And>x. x \<in> set ns \<Longrightarrow> x < length (heap s) \<and> prev (heap s ! x) = before ns x
                  \<and> nxt (heap s ! x) = after ns x"
    using dl by (auto simp: dll_def)
  have "dll (heap ?s') (remove1 r ns)"
    unfolding dll_def
  proof (intro conjI ballI)
    show "distinct (remove1 r ns)" using d by simp
  next
    fix x assume "x \<in> set (remove1 r ns)"
    then have x: "x \<in> set ns" "x \<noteq> r" using d by auto
    show "x < length (heap ?s')" using links [OF x(1)] by (simp add: removeNode_fields)
    show "prev (heap ?s' ! x) = before (remove1 r ns) x"
      using other [OF x(2)] links [OF x(1)] d x(2)
      by (simp add: before_remove1 before_after)
    show "nxt (heap ?s' ! x) = after (remove1 r ns) x"
      using other [OF x(2)] links [OF x(1)] d x(2)
      by (simp add: after_remove1 before_after)
  qed
  moreover have "head ?s' = hdopt (remove1 r ns)"
    using removeNode_head(1) [OF dl2 r] hd d r by (simp add: hdopt_remove1 before_None)
  moreover have "tail ?s' = lastopt (remove1 r ns)"
    using removeNode_head(2) [OF dl2 r] tl d r by (simp add: lastopt_remove1 after_None)
  moreover have "\<forall>x. hand ?s' = Some x \<longrightarrow> x \<in> set (remove1 r ns)"
    using hnd d links [OF r] before_neq [OF d, of r]
    by (auto simp: removeNode_fields dest: before_in)
  moreover have "size_c ?s' = int (length (remove1 r ns))"
  proof -
    have "0 < length ns" using r by (rule length_pos_if_in_set)
    then have "int (length ns - 1) = int (length ns) - 1" by linarith
    then show ?thesis using sz r by (simp add: length_remove1)
  qed
  moreover have "\<forall>k' x. map_c ?s' k' = Some x
                   \<longleftrightarrow> x \<in> set (remove1 r ns) \<and> key (heap ?s' ! x) = k'"
  proof (intro allI)
    fix k' x
    show "map_c ?s' k' = Some x \<longleftrightarrow> x \<in> set (remove1 r ns) \<and> key (heap ?s' ! x) = k'"
    proof (cases "x = r")
      case True
      then show ?thesis using d mp [of k' r] kr by (auto simp: removeNode_fields)
    next
      case False
      then show ?thesis using d mp [of k' x] mp [of k x] m other [OF False]
        by (auto simp: removeNode_fields)
    qed
  qed
  ultimately show ?thesis unfolding s' cache_inv_def by blast
qed

lemma swept_refl: "swept h h S"
  by (simp add: swept_def)

lemma swept_fields:
  assumes "swept h h' S"
  shows "key (h' ! x) = key (h ! x)" "val (h' ! x) = val (h ! x)"
    "prev (h' ! x) = prev (h ! x)" "nxt (h' ! x) = nxt (h ! x)"
    "visited (h' ! x) \<Longrightarrow> visited (h ! x)" "length h' = length h"
    "x \<notin> S \<Longrightarrow> h' ! x = h ! x"
proof -
  have a: "h' ! x = h ! x \<or> (x \<in> S \<and> visited (h ! x) \<and> h' ! x = (h ! x)\<lparr>visited := False\<rparr>)"
    using assms by (simp add: swept_def)
  show "key (h' ! x) = key (h ! x)" using a by auto
  show "val (h' ! x) = val (h ! x)" using a by auto
  show "prev (h' ! x) = prev (h ! x)" using a by auto
  show "nxt (h' ! x) = nxt (h ! x)" using a by auto
  show "visited (h' ! x) \<Longrightarrow> visited (h ! x)" using a by auto
  show "length h' = length h" using assms by (simp add: swept_def)
  show "x \<notin> S \<Longrightarrow> h' ! x = h ! x" using a by auto
qed

lemma swept_clear:
  "r \<in> S \<Longrightarrow> r < length h \<Longrightarrow> visited (h ! r) \<Longrightarrow> swept h (h[r := (h ! r)\<lparr>visited := False\<rparr>]) S"
  by (simp add: swept_def nth_list_update)

lemma dll_swept: "swept h h' S \<Longrightarrow> dll h ns \<Longrightarrow> dll h' ns"
  by (simp add: dll_def swept_fields)

lemma swept_step:
  assumes "r \<in> S" "r < length h" "visited (h ! r)"
    and "swept (h[r := (h ! r)\<lparr>visited := False\<rparr>]) h' S"
  shows "swept h h' S"
  unfolding swept_def
proof (intro conjI allI)
  let ?h1 = "h[r := (h ! r)\<lparr>visited := False\<rparr>]"
  show "length h' = length h" using assms(4) by (simp add: swept_def)
  fix x
  have a: "h' ! x = ?h1 ! x \<or> (x \<in> S \<and> visited (?h1 ! x) \<and> h' ! x = (?h1 ! x)\<lparr>visited := False\<rparr>)"
    using assms(4) by (simp add: swept_def)
  show "h' ! x = h ! x \<or> (x \<in> S \<and> visited (h ! x) \<and> h' ! x = (h ! x)\<lparr>visited := False\<rparr>)"
  proof (cases "x = r")
    case True
    then show ?thesis using a assms(1,2,3) by auto
  next
    case False
    then show ?thesis using a by auto
  qed
qed

lemma evict_loop_chain:
  assumes "dll h ns" "r \<in> set ns"
  shows "\<exists>h' v. evict_loop h (lastopt ns) (Some r) = (h', Some v) \<and> v \<in> set ns
           \<and> \<not> visited (h' ! v) \<and> swept h h' (set ns)
           \<and> evict_steps h (lastopt ns) (Some r) \<le> card {x \<in> set ns. visited (h ! x)}"
  using assms
proof (induction "nvisited h" arbitrary: h r rule: less_induct)
  case less
  have rl: "r < length h" and pr: "prev (h ! r) = before ns r"
    using less.prems by (auto simp: dll_def)
  show ?case
  proof (cases "visited (h ! r)")
    case False
    then show ?thesis
      using less.prems(2) by (simp add: evict_loop.simps evict_steps.simps swept_refl)
  next
    case True
    let ?h1 = "h[r := (h ! r)\<lparr>visited := False\<rparr>]"
    let ?c = "case before ns r of None \<Rightarrow> lastopt ns | Some p \<Rightarrow> Some p"
    have d1: "dll ?h1 ns"
      using swept_clear [OF less.prems(2) rl True] less.prems(1) by (rule dll_swept)
    have ne: "ns \<noteq> []" using less.prems(2) by auto
    have "\<exists>r'. ?c = Some r' \<and> r' \<in> set ns"
      using ne by (cases "before ns r") (auto simp: lastopt_def dest: before_in)
    then obtain r' where c: "?c = Some r'" and r': "r' \<in> set ns" by blast
    have lt: "nvisited ?h1 < nvisited h" using rl True by (rule nvisited_clear)
    from less.hyps [OF lt d1 r'] obtain h' v where
      l: "evict_loop ?h1 (lastopt ns) (Some r') = (h', Some v)" and v: "v \<in> set ns"
      and nv: "\<not> visited (h' ! v)" and sw: "swept ?h1 h' (set ns)"
      and st: "evict_steps ?h1 (lastopt ns) (Some r') \<le> card {x \<in> set ns. visited (?h1 ! x)}"
      by blast
    have e: "evict_loop h (lastopt ns) (Some r) = evict_loop ?h1 (lastopt ns) (Some r')"
      using rl True pr c by (subst evict_loop.simps) (simp add: Let_def)
    have es: "evict_steps h (lastopt ns) (Some r) = Suc (evict_steps ?h1 (lastopt ns) (Some r'))"
      using rl True pr c by (subst evict_steps.simps) (simp add: Let_def)
    have "{x \<in> set ns. visited (?h1 ! x)} = {x \<in> set ns. visited (h ! x)} - {r}"
      using rl by (auto simp: nth_list_update)
    moreover have "r \<in> {x \<in> set ns. visited (h ! x)}" using True less.prems(2) by simp
    moreover have "finite {x \<in> set ns. visited (h ! x)}" by simp
    ultimately have "Suc (card {x \<in> set ns. visited (?h1 ! x)}) = card {x \<in> set ns. visited (h ! x)}"
      by (metis (no_types, lifting) card_Suc_Diff1)
    with st have "evict_steps h (lastopt ns) (Some r) \<le> card {x \<in> set ns. visited (h ! x)}"
      using es by simp
    moreover have "swept h h' (set ns)"
      using less.prems(2) rl True sw by (rule swept_step)
    ultimately show ?thesis using e l v nv by simp
  qed
qed

lemma inv_heap_swept:
  "cache_inv s ns \<Longrightarrow> swept (heap s) h' S \<Longrightarrow> cache_inv (s\<lparr>heap := h'\<rparr>) ns"
  by (simp add: cache_inv_def dll_swept swept_fields)

lemma inv_hand: "cache_inv s ns \<Longrightarrow> (\<And>x. p = Some x \<Longrightarrow> x \<in> set ns) \<Longrightarrow> cache_inv (s\<lparr>hand := p\<rparr>) ns"
  by (simp add: cache_inv_def)

lemma evict_empty: "cache_inv s [] \<Longrightarrow> evict s = s"
  by (cases "hand s") (simp_all add: cache_inv_def evict_def scan_start_def evict_loop.simps)

lemma evict_nonempty:
  assumes inv: "cache_inv s ns" and ne: "ns \<noteq> []"
  shows "\<exists>h' v. evict_loop (heap s) (tail s) (scan_start s)
                  = (h', Some v)
           \<and> v \<in> set ns \<and> \<not> visited (h' ! v) \<and> swept (heap s) h' (set ns)
           \<and> evict_steps (heap s) (tail s) (scan_start s)
                 \<le> length ns
           \<and> map_c s (key (heap s ! v)) = Some v
           \<and> evict s = snd (delete (s\<lparr>heap := h', hand := before ns v\<rparr>) (key (heap s ! v)))
           \<and> cache_inv (evict s) (remove1 v ns)
           \<and> map_c (evict s) = (map_c s)(key (heap s ! v) := None)
           \<and> hand (evict s) = before ns v
           \<and> size_c (evict s) = size_c s - 1
           \<and> capacity (evict s) = capacity s
           \<and> length (heap (evict s)) = length (heap s)"
proof -
  let ?start = "scan_start s"
  have dl: "dll (heap s) ns" and d: "distinct ns" and tl: "tail s = lastopt ns"
    and mp: "\<And>k x. map_c s k = Some x \<longleftrightarrow> x \<in> set ns \<and> key (heap s ! x) = k"
    using inv by (auto simp: cache_inv_def dll_def)
  have "\<exists>r. ?start = Some r \<and> r \<in> set ns"
    using inv ne by (cases "hand s") (auto simp: cache_inv_def lastopt_def scan_start_def)
  then obtain r where st: "?start = Some r" and r: "r \<in> set ns" by blast
  from evict_loop_chain [OF dl r] obtain h' v where
    l: "evict_loop (heap s) (lastopt ns) (Some r) = (h', Some v)" and v: "v \<in> set ns"
    and nv: "\<not> visited (h' ! v)" and sw: "swept (heap s) h' (set ns)"
    and steps: "evict_steps (heap s) (lastopt ns) (Some r) \<le> card {x \<in> set ns. visited (heap s ! x)}"
    by blast
  have "card {x \<in> set ns. visited (heap s ! x)} \<le> card (set ns)"
    by (rule card_mono) auto
  also have "\<dots> \<le> length ns" by (rule card_length)
  finally have steps': "evict_steps (heap s) (tail s) ?start \<le> length ns"
    using steps st tl by simp
  have l': "evict_loop (heap s) (tail s) ?start = (h', Some v)" using l st tl by simp
  have mv: "map_c s (key (heap s ! v)) = Some v" using mp v by simp
  let ?s2 = "s\<lparr>heap := h', hand := before ns v\<rparr>"
  have pv: "prev (h' ! v) = before ns v"
    using dll_swept [OF sw dl] v by (simp add: dll_def)
  have kv: "key (h' ! v) = key (heap s ! v)" using sw by (rule swept_fields)
  have ev: "evict s = snd (delete ?s2 (key (heap s ! v)))"
    unfolding evict_def Let_def l' by (simp add: evict_remove_def pv kv)
  have inv2: "cache_inv ?s2 ns"
    using inv_hand [OF inv_heap_swept [OF inv sw], of "before ns v"] by (auto dest: before_in)
  have mv2: "map_c ?s2 (key (heap s ! v)) = Some v" using mv by simp
  have "cache_inv (evict s) (remove1 v ns)"
    unfolding ev using inv2 mv2 by (rule inv_delete)
  moreover have "map_c (evict s) = (map_c s)(key (heap s ! v) := None)"
    "hand (evict s) = before ns v" "size_c (evict s) = size_c s - 1"
    "capacity (evict s) = capacity s" "length (heap (evict s)) = length (heap s)"
    unfolding ev using before_neq [OF d, of v] sw
    by (simp_all add: delete_present [OF mv2] removeNode_fields swept_fields)
  ultimately show ?thesis using l' v nv sw steps' mv ev by blast
qed

lemma set_c_absent:
  "map_c s k = None \<Longrightarrow>
   set_c s k v =
     (length (heap (if size_c s = capacity s then evict s else s)),
      insert_new (if size_c s = capacity s then evict s else s) k v)"
  by (simp add: set_c_def insert_new_def Let_def)

lemma insert_new_fields:
  "map_c (insert_new s k v) = (map_c s)(k \<mapsto> length (heap s))"
  "size_c (insert_new s k v) = size_c s + 1"
  "capacity (insert_new s k v) = capacity s"
  "hand (insert_new s k v) = hand s"
  "head (insert_new s k v) = Some (length (heap s))"
  "tail (insert_new s k v) = (case tail s of None \<Rightarrow> Some (length (heap s)) | Some t \<Rightarrow> Some t)"
  "length (heap (insert_new s k v)) = Suc (length (heap s))"
  by (simp_all add: insert_new_def addToHead_def Let_def split: option.splits)

lemma insert_new_node:
  assumes "\<And>x. head s = Some x \<Longrightarrow> x < length (heap s)"
  shows "heap (insert_new s k v) ! length (heap s)
           = \<lparr>key = k, val = v, prev = None, nxt = head s, visited = False\<rparr>"
  using assms
  by (cases "head s"; cases "tail s")
     (simp_all add: insert_new_def addToHead_def Let_def Node_new_def nth_list_update nth_append)

lemma insert_new_other:
  assumes "x < length (heap s)"
  shows "heap (insert_new s k v) ! x
           = (if head s = Some x then (heap s ! x)\<lparr>prev := Some (length (heap s))\<rparr> else heap s ! x)"
  using assms
  by (cases "head s"; cases "tail s")
     (simp_all add: insert_new_def addToHead_def Let_def Node_new_def nth_list_update nth_append)

lemma inv_insert_new:
  assumes inv: "cache_inv s ns" and m: "map_c s k = None"
  shows "cache_inv (insert_new s k v) (length (heap s) # ns)"
proof -
  let ?n = "length (heap s)"
  let ?s' = "insert_new s k v"
  have dl: "dll (heap s) ns" and d: "distinct ns"
    and hd: "head s = hdopt ns" and tl: "tail s = lastopt ns"
    and hnd: "\<And>x. hand s = Some x \<Longrightarrow> x \<in> set ns"
    and sz: "size_c s = int (length ns)"
    and mp: "\<And>k x. map_c s k = Some x \<longleftrightarrow> x \<in> set ns \<and> key (heap s ! x) = k"
    using inv by (auto simp: cache_inv_def dll_def)
  have links: "\<And>x. x \<in> set ns \<Longrightarrow> x < ?n \<and> prev (heap s ! x) = before ns x
                  \<and> nxt (heap s ! x) = after ns x"
    using dl by (auto simp: dll_def)
  have fresh: "?n \<notin> set ns" using links by auto
  have hl: "\<And>x. head s = Some x \<Longrightarrow> x < ?n" using hd links by (auto dest: hdopt_in)
  note node = insert_new_node [of s, OF hl]
  have "dll (heap ?s') (?n # ns)"
    unfolding dll_def
  proof (intro conjI ballI)
    show "distinct (?n # ns)" using d fresh by simp
  next
    fix x assume x: "x \<in> set (?n # ns)"
    show "x < length (heap ?s')" using x links by (auto simp: insert_new_fields less_Suc_eq)
    show "prev (heap ?s' ! x) = before (?n # ns) x"
    proof (cases "x = ?n")
      case True
      then show ?thesis using node fresh by (simp add: before_Cons before_notin) (auto dest: hdopt_in)
    next
      case False
      then have xs: "x \<in> set ns" using x by simp
      then show ?thesis using links [OF xs] fresh hd by (simp add: insert_new_other before_Cons)
    qed
    show "nxt (heap ?s' ! x) = after (?n # ns) x"
    proof (cases "x = ?n")
      case True
      then show ?thesis using node fresh hd by (simp add: after_Cons)
    next
      case False
      then have xs: "x \<in> set ns" using x by simp
      then show ?thesis using links [OF xs] fresh False by (simp add: insert_new_other after_Cons)
    qed
  qed
  moreover have "head ?s' = hdopt (?n # ns)" by (simp add: insert_new_fields)
  moreover have "tail ?s' = lastopt (?n # ns)"
    using tl by (cases ns) (simp_all add: insert_new_fields lastopt_def)
  moreover have "\<forall>x. hand ?s' = Some x \<longrightarrow> x \<in> set (?n # ns)"
    using hnd by (simp add: insert_new_fields)
  moreover have "size_c ?s' = int (length (?n # ns))" using sz by (simp add: insert_new_fields)
  moreover have "\<forall>k' x. map_c ?s' k' = Some x
                   \<longleftrightarrow> x \<in> set (?n # ns) \<and> key (heap ?s' ! x) = k'"
  proof (intro allI)
    fix k' x
    show "map_c ?s' k' = Some x \<longleftrightarrow> x \<in> set (?n # ns) \<and> key (heap ?s' ! x) = k'"
    proof (cases "x = ?n")
      case True
      then show ?thesis using node fresh mp [of k' ?n] by (auto simp: insert_new_fields)
    next
      case False
      show ?thesis
      proof (cases "x \<in> set ns")
        case True
        then have "x < ?n" using links by simp
        then show ?thesis using True False mp [of k' x] mp [of k x] m fresh
          by (auto simp: insert_new_fields insert_new_other)
      next
        case False
        then show ?thesis using \<open>x \<noteq> ?n\<close> mp [of k' x] by (auto simp: insert_new_fields)
      qed
    qed
  qed
  ultimately show ?thesis unfolding cache_inv_def by blast
qed

lemma inv_set_absent:
  assumes inv: "cache_inv s ns" and m: "map_c s k = None"
  shows "\<exists>ns'. cache_inv (snd (set_c s k v)) ns'"
proof (cases "size_c s = capacity s \<and> ns \<noteq> []")
  case True
  from evict_nonempty [OF inv] True obtain x where
    i: "cache_inv (evict s) (remove1 x ns)" and
    me: "map_c (evict s) = (map_c s)(key (heap s ! x) := None)"
    by blast
  have "map_c (evict s) k = None" using me m by simp
  from inv_insert_new [OF i this] show ?thesis using True m by (auto simp: set_c_absent)
next
  case False
  then have "(if size_c s = capacity s then evict s else s) = s"
    using inv evict_empty by auto
  then show ?thesis using inv_insert_new [OF inv m] m by (auto simp: set_c_absent)
qed

lemma inv_step: "cache_inv s ns \<Longrightarrow> \<exists>ns'. cache_inv (step s c) ns'"
proof (cases c)
  case (Set k v)
  assume "cache_inv s ns"
  then show ?thesis using Set inv_set_absent [of s ns k v] inv_set_existing [of s ns k _ v]
    by (cases "map_c s k") auto
next
  case (Get k)
  assume "cache_inv s ns"
  then show ?thesis using Get inv_get by auto
next
  case (GetNode k)
  assume "cache_inv s ns"
  then show ?thesis using GetNode by auto
next
  case (Delete k)
  assume "cache_inv s ns"
  then show ?thesis using Delete inv_delete [of s ns k] delete_absent [of s k]
    by (cases "map_c s k") auto
next
  case Clear
  then show ?thesis using inv_clear by auto
next
  case ToArray
  assume "cache_inv s ns"
  then show ?thesis using ToArray by (auto simp: toArray_def)
qed

lemma run_snoc: "run s (cs @ [c]) = step (run s cs) c"
  by (simp add: run_def)

lemma inv_run: "\<exists>ns. cache_inv (run (SieveCache_new c) cs) ns"
proof (induction cs rule: rev_induct)
  case Nil
  then show ?case using inv_new by (auto simp: run_def)
next
  case (snoc x xs)
  then show ?case using inv_step by (auto simp: run_snoc)
qed

section \<open>The scenario of the specification\<close>

text \<open>
  C3. A cache of capacity 3; \<open>set\<close> of a, b and c, \<open>get\<close> of a, \<open>set\<close> of d. The key b
  is evicted: b is no longer in the index, the keys of the index are a, c and d, and
  the chain holds d, c, a. This holds whatever the four values are.
\<close>

theorem C3_scenario:
  "let s = run (SieveCache_new 3)
             [Set ''a'' va, Set ''b'' vb, Set ''c'' vc, Get ''a'', Set ''d'' vd]
   in getNode s ''b'' = None \<and> dom (map_c s) = {''a'', ''c'', ''d''}
      \<and> size_c s = 3
      \<and> fst (toArray s) = Some [(''d'', vd), (''c'', vc), (''a'', va)]"
  by (simp add: cache_defs getNode_def evict_loop.simps iterate.simps insert_commute)

section \<open>The capacity bound\<close>

lemma capacity_evict: "capacity (evict s) = capacity s"
  by (simp add: evict_def evict_remove_def delete_def Let_def removeNode_fields
      split: prod.splits option.splits)

lemma capacity_step: "capacity (step s c) = capacity s"
proof (cases c)
  case (Set k v)
  then show ?thesis
    by (cases "map_c s k")
       (simp_all add: set_c_absent set_c_existing insert_new_fields capacity_evict)
next
  case (Delete k)
  then show ?thesis
    by (cases "map_c s k") (simp_all add: delete_absent delete_present removeNode_fields)
qed (simp_all add: get_def clear_def toArray_def Let_def split: option.splits)

lemma capacity_run: "capacity (run (SieveCache_new c) cs) = c"
  by (induction cs rule: rev_induct) (simp_all add: run_snoc capacity_step, simp add: run_def SieveCache_new_def)

lemma inv_nonempty: "cache_inv s ns \<Longrightarrow> 0 < size_c s \<Longrightarrow> ns \<noteq> []"
  by (auto simp: cache_inv_def)

lemma inv_size: "cache_inv s ns \<Longrightarrow> size_c s = int (length ns)"
  by (simp add: cache_inv_def)

lemma inv_dom: "cache_inv s ns \<Longrightarrow> dom (map_c s) = (\<lambda>r. key (heap s ! r)) ` set ns"
  by (auto simp: cache_inv_def dom_def)

lemma inv_key_inj: "cache_inv s ns \<Longrightarrow> inj_on (\<lambda>r. key (heap s ! r)) (set ns)"
  unfolding cache_inv_def inj_on_def by (metis option.inject)

lemma inv_card: 
  assumes "cache_inv s ns" shows "size_c s = int (card (dom (map_c s)))"
proof -
  have "distinct ns" using assms by (simp add: cache_inv_def dll_def)
  then have "card (set ns) = length ns" by (rule distinct_card)
  then show ?thesis
    using inv_dom [OF assms] inv_key_inj [OF assms] inv_size [OF assms]
    by (simp add: card_image)
qed

lemma set_full:
  assumes inv: "cache_inv s ns" and pos: "0 < size_c s" and full: "size_c s = capacity s"
    and m: "map_c s k = None"
  shows "\<exists>k0 \<in> dom (map_c s).
           map_c (evict s) = (map_c s)(k0 := None) \<and> size_c (evict s) = size_c s - 1
           \<and> snd (set_c s k v) = insert_new (evict s) k v
           \<and> map_c (snd (set_c s k v)) = (map_c s)(k0 := None, k \<mapsto> length (heap s))
           \<and> size_c (snd (set_c s k v)) = size_c s"
proof -
  from evict_nonempty [OF inv inv_nonempty [OF inv pos]] obtain x where
    mx: "map_c s (key (heap s ! x)) = Some x"
    and me: "map_c (evict s) = (map_c s)(key (heap s ! x) := None)"
    and sz: "size_c (evict s) = size_c s - 1"
    and ln: "length (heap (evict s)) = length (heap s)"
    by blast
  have "key (heap s ! x) \<in> dom (map_c s)" using mx by auto
  moreover have "snd (set_c s k v) = insert_new (evict s) k v"
    using m full by (simp add: set_c_absent)
  ultimately show ?thesis using me sz ln by (auto simp: insert_new_fields)
qed

lemma step_bound:
  assumes inv: "cache_inv s ns" and c1: "1 \<le> capacity s" and b: "size_c s \<le> capacity s"
  shows "size_c (step s c) \<le> capacity s"
proof (cases c)
  case (Set k v)
  show ?thesis
  proof (cases "map_c s k")
    case None
    show ?thesis
    proof (cases "size_c s = capacity s")
      case True
      then have "0 < size_c s" using c1 by simp
      from set_full [OF inv this True None, of v] show ?thesis using Set b by auto
    next
      case False
      then show ?thesis using Set None b by (simp add: set_c_absent insert_new_fields)
    qed
  next
    case (Some r)
    then show ?thesis using Set b by (simp add: set_c_existing)
  qed
next
  case (Delete k)
  then show ?thesis using b
    by (cases "map_c s k") (simp_all add: delete_absent delete_present removeNode_fields)
next
  case Clear
  then show ?thesis using c1 by (simp add: clear_def)
qed (use b in \<open>simp_all add: get_def toArray_def Let_def split: option.splits\<close>)

lemma run_bound: "1 \<le> c \<Longrightarrow> size_c (run (SieveCache_new c) cs) \<le> c"
proof (induction cs rule: rev_induct)
  case Nil
  then show ?case by (simp add: run_def SieveCache_new_def)
next
  case (snoc x xs)
  obtain ns where "cache_inv (run (SieveCache_new c) xs) ns" using inv_run by blast
  from step_bound [OF this] snoc show ?case by (simp add: run_snoc capacity_run)
qed

text \<open>
  C2. Take a cache built with a capacity of at least 1 and any sequence of calls on it
  (\<open>set\<close> and the other methods alike). Its size is at most its capacity, and is the
  number of keys of the index. At size = capacity, \<open>set\<close> of a key that is absent first
  evicts: one key \<open>k0\<close> of the index leaves it and the size drops by one; then the new
  node is inserted, so that the index is the old one without \<open>k0\<close> and with the new key,
  and the size is the capacity again.
\<close>

theorem C2_capacity_bound:
  assumes "1 \<le> c" and "s = run (SieveCache_new c) cs"
  shows "size_c s \<le> capacity s \<and> capacity s = c \<and> size_c s = int (card (dom (map_c s)))
     \<and> (size_c s = capacity s \<and> map_c s k = None \<longrightarrow>
          (\<exists>k0 \<in> dom (map_c s).
             map_c (evict s) = (map_c s)(k0 := None) \<and> size_c (evict s) = size_c s - 1
             \<and> snd (set_c s k v) = insert_new (evict s) k v
             \<and> map_c (snd (set_c s k v)) = (map_c s)(k0 := None, k \<mapsto> length (heap s))
             \<and> size_c (snd (set_c s k v)) = capacity s))"
proof -
  obtain ns where inv: "cache_inv s ns" using inv_run assms(2) by blast
  have cap: "capacity s = c" using assms(2) by (simp add: capacity_run)
  have le: "size_c s \<le> capacity s" using run_bound [OF assms(1)] assms(2) cap by simp
  have "size_c s = capacity s \<and> map_c s k = None \<longrightarrow>
          (\<exists>k0 \<in> dom (map_c s).
             map_c (evict s) = (map_c s)(k0 := None) \<and> size_c (evict s) = size_c s - 1
             \<and> snd (set_c s k v) = insert_new (evict s) k v
             \<and> map_c (snd (set_c s k v)) = (map_c s)(k0 := None, k \<mapsto> length (heap s))
             \<and> size_c (snd (set_c s k v)) = capacity s)"
  proof
    assume a: "size_c s = capacity s \<and> map_c s k = None"
    then have "0 < size_c s" using cap assms(1) by simp
    from set_full [OF inv this, of k v] a show "\<exists>k0 \<in> dom (map_c s).
             map_c (evict s) = (map_c s)(k0 := None) \<and> size_c (evict s) = size_c s - 1
             \<and> snd (set_c s k v) = insert_new (evict s) k v
             \<and> map_c (snd (set_c s k v)) = (map_c s)(k0 := None, k \<mapsto> length (heap s))
             \<and> size_c (snd (set_c s k v)) = capacity s"
      by auto
  qed
  then show ?thesis using le cap inv_card [OF inv] by blast
qed

theorem C2_capacity_bound_witness:
  "(1::int) \<le> 2
   \<and> size_c (run (SieveCache_new 2) [Set ''a'' (1::nat), Set ''b'' 2]) = 2
   \<and> map_c (run (SieveCache_new 2) [Set ''a'' (1::nat), Set ''b'' 2]) ''c'' = None
   \<and> (\<exists>k0 \<in> dom (map_c (run (SieveCache_new 2) [Set ''a'' (1::nat), Set ''b'' 2])).
         map_c (snd (set_c (run (SieveCache_new 2) [Set ''a'' (1::nat), Set ''b'' 2]) ''c'' 3))
           = (map_c (run (SieveCache_new 2) [Set ''a'' (1::nat), Set ''b'' 2]))
               (k0 := None, ''c'' \<mapsto> 2)
         \<and> size_c (snd (set_c (run (SieveCache_new 2) [Set ''a'' (1::nat), Set ''b'' 2]) ''c'' 3)) = 2)"
proof -
  let ?s = "run (SieveCache_new 2) [Set ''a'' (1::nat), Set ''b'' 2]"
  have sz: "size_c ?s = 2" by (simp add: cache_defs)
  have cp: "capacity ?s = 2" by (simp add: cache_defs)
  have mp: "map_c ?s ''c'' = None" by (simp add: cache_defs)
  have ln: "length (heap ?s) = 2" by (simp add: cache_defs)
  from C2_capacity_bound [of 2 ?s "[Set ''a'' 1, Set ''b'' 2]" "''c''" 3] sz cp mp ln
  show ?thesis by auto
qed

section \<open>The eviction scan\<close>

text \<open>
  C9. On a cache reached by any sequence of calls and holding at least one entry, the
  loop of the eviction scan (a total function: every round clears one flag of the
  store) stops at a node, not at \<open>null\<close>: the victim, which is in the index and whose
  flag is false after the loop. The loop runs at most \<open>size\<close> rounds, so the cursor is
  tested at most \<open>size + 1\<close> times, and the eviction removes one entry.
\<close>

theorem C9_scan_terminates:
  assumes "s = run (SieveCache_new c) cs" and "0 < size_c s"
  shows "\<exists>h v. evict_loop (heap s) (tail s) (scan_start s) = (h, Some v)
           \<and> \<not> visited (h ! v) \<and> getNode s (key (heap s ! v)) = Some v
           \<and> int (evict_steps (heap s) (tail s) (scan_start s)) \<le> size_c s
           \<and> map_c (evict s) = (map_c s)(key (heap s ! v) := None)
           \<and> size_c (evict s) = size_c s - 1"
proof -
  obtain ns where inv: "cache_inv s ns" using inv_run assms(1) by blast
  from evict_nonempty [OF inv inv_nonempty [OF inv assms(2)]] inv_size [OF inv]
  show ?thesis unfolding getNode_def by fastforce
qed

theorem C9_scan_terminates_witness:
  "0 < size_c (run (SieveCache_new 3) [Set ''a'' (1::nat), Set ''b'' 2, Set ''c'' 3, Get ''a''])
   \<and> (\<exists>h v. evict_loop (heap (run (SieveCache_new 3) [Set ''a'' (1::nat), Set ''b'' 2, Set ''c'' 3, Get ''a'']))
               (tail (run (SieveCache_new 3) [Set ''a'' (1::nat), Set ''b'' 2, Set ''c'' 3, Get ''a'']))
               (scan_start (run (SieveCache_new 3) [Set ''a'' (1::nat), Set ''b'' 2, Set ''c'' 3, Get ''a'']))
             = (h, Some v)
           \<and> \<not> visited (h ! v)
           \<and> int (evict_steps (heap (run (SieveCache_new 3) [Set ''a'' (1::nat), Set ''b'' 2, Set ''c'' 3, Get ''a'']))
               (tail (run (SieveCache_new 3) [Set ''a'' (1::nat), Set ''b'' 2, Set ''c'' 3, Get ''a'']))
               (scan_start (run (SieveCache_new 3) [Set ''a'' (1::nat), Set ''b'' 2, Set ''c'' 3, Get ''a''])))
              \<le> 3)"
proof -
  let ?s = "run (SieveCache_new 3) [Set ''a'' (1::nat), Set ''b'' 2, Set ''c'' 3, Get ''a'']"
  have sz: "size_c ?s = 3" by (simp add: cache_defs)
  from C9_scan_terminates [of ?s 3 "[Set ''a'' 1, Set ''b'' 2, Set ''c'' 3, Get ''a'']"] sz
  show ?thesis by fastforce
qed

lemma evict_loop_scan_spec:
  "evict_loop h (Some t) (Some r) = (fst (scan_spec h t r), Some (snd (scan_spec h t r)))"
proof (induction h t r rule: scan_spec.induct)
  case (1 h t cursor)
  show ?case
  proof (cases "cursor < length h \<and> visited (h ! cursor)")
    case True
    let ?h1 = "h[cursor := (h ! cursor)\<lparr>visited := False\<rparr>]"
    let ?n = "case prev (h ! cursor) of None \<Rightarrow> t | Some p \<Rightarrow> p"
    have p: "prev (?h1 ! cursor) = prev (h ! cursor)" using True by simp
    have n: "(case prev (h ! cursor) of None \<Rightarrow> Some t | Some p \<Rightarrow> Some p) = Some ?n"
      by (cases "prev (h ! cursor)") simp_all
    have "evict_loop h (Some t) (Some cursor) = evict_loop ?h1 (Some t) (Some ?n)"
      using True by (subst evict_loop.simps) (simp add: Let_def p n)
    moreover have "scan_spec h t cursor = scan_spec ?h1 t ?n"
      using True by (subst scan_spec.simps) simp
    ultimately show ?thesis using 1 [OF True] by simp
  next
    case False
    then show ?thesis
      by (subst evict_loop.simps, subst (1 2) scan_spec.simps) auto
  qed
qed

lemma evict_eq_spec:
  assumes inv: "cache_inv s ns"
  shows "evict s = evict_spec s"
proof (cases ns)
  case Nil
  then have "tail s = None" using inv by (simp add: cache_inv_def)
  then show ?thesis using inv Nil by (simp add: evict_empty evict_spec_def)
next
  case (Cons n ns')
  then obtain t where t: "tail s = Some t" using inv by (auto simp: cache_inv_def)
  let ?c = "case hand s of Some r \<Rightarrow> r | None \<Rightarrow> t"
  have st: "scan_start s = Some ?c"
    using t by (cases "hand s") (simp_all add: scan_start_def)
  obtain h v where sc: "scan_spec (heap s) t ?c = (h, v)" by (cases "scan_spec (heap s) t ?c")
  have "evict_loop (heap s) (tail s) (scan_start s) = (h, Some v)"
    unfolding t st evict_loop_scan_spec sc by simp
  then show ?thesis
    by (simp add: evict_def evict_spec_def evict_remove_def Let_def t sc)
qed

text \<open>
  C1. On a cache reached by any sequence of calls, \<open>_evict\<close> does what the steps of the
  specification say (\<open>evict_spec\<close>), and \<open>set\<close> runs it only for an absent key at
  size = capacity. With at least one entry, the scan of those steps stops at a node whose
  flag is false, the victim; after the eviction the hand is the predecessor the victim
  had, and the victim has left the index and the size has dropped by one, as \<open>delete\<close>
  of its key does.
\<close>

theorem C1_evict_follows_spec:
  assumes "s = run (SieveCache_new c) cs"
  shows "evict s = evict_spec s
     \<and> snd (set_c s k v) =
         (case map_c s k of
            Some r \<Rightarrow> s\<lparr>heap := (heap s)[r := (heap s ! r)\<lparr>val := v, visited := True\<rparr>]\<rparr>
          | None \<Rightarrow> insert_new (if size_c s = capacity s then evict_spec s else s) k v)
     \<and> (0 < size_c s \<longrightarrow>
          (\<exists>t h victim.
             tail s = Some t
             \<and> scan_spec (heap s) t (case hand s of Some r \<Rightarrow> r | None \<Rightarrow> t) = (h, victim)
             \<and> \<not> visited (h ! victim)
             \<and> getNode s (key (heap s ! victim)) = Some victim
             \<and> hand (evict s) = prev (heap s ! victim)
             \<and> evict s = snd (delete (s\<lparr>heap := h, hand := prev (h ! victim)\<rparr>)
                                 (key (h ! victim)))
             \<and> map_c (evict s) = (map_c s)(key (heap s ! victim) := None)
             \<and> size_c (evict s) = size_c s - 1))"
proof -
  obtain ns where inv: "cache_inv s ns" using inv_run assms(1) by blast
  have e: "evict s = evict_spec s" using inv by (rule evict_eq_spec)
  have st: "snd (set_c s k v) =
         (case map_c s k of
            Some r \<Rightarrow> s\<lparr>heap := (heap s)[r := (heap s ! r)\<lparr>val := v, visited := True\<rparr>]\<rparr>
          | None \<Rightarrow> insert_new (if size_c s = capacity s then evict_spec s else s) k v)"
    by (cases "map_c s k") (simp_all add: set_c_absent set_c_existing e)
  have "0 < size_c s \<longrightarrow>
          (\<exists>t h victim.
             tail s = Some t
             \<and> scan_spec (heap s) t (case hand s of Some r \<Rightarrow> r | None \<Rightarrow> t) = (h, victim)
             \<and> \<not> visited (h ! victim)
             \<and> getNode s (key (heap s ! victim)) = Some victim
             \<and> hand (evict s) = prev (heap s ! victim)
             \<and> evict s = snd (delete (s\<lparr>heap := h, hand := prev (h ! victim)\<rparr>)
                                 (key (h ! victim)))
             \<and> map_c (evict s) = (map_c s)(key (heap s ! victim) := None)
             \<and> size_c (evict s) = size_c s - 1)"
  proof
    assume pos: "0 < size_c s"
    have ne: "ns \<noteq> []" using inv pos by (rule inv_nonempty)
    then obtain t where t: "tail s = Some t" using inv by (auto simp: cache_inv_def lastopt_def)
    let ?c = "case hand s of Some r \<Rightarrow> r | None \<Rightarrow> t"
    have st: "scan_start s = Some ?c"
      using t by (cases "hand s") (simp_all add: scan_start_def)
    from evict_nonempty [OF inv ne] obtain h v where
      l: "evict_loop (heap s) (tail s) (scan_start s) = (h, Some v)"
      and v: "v \<in> set ns" and nv: "\<not> visited (h ! v)" and sw: "swept (heap s) h (set ns)"
      and mv: "map_c s (key (heap s ! v)) = Some v"
      and ev: "evict s = snd (delete (s\<lparr>heap := h, hand := before ns v\<rparr>) (key (heap s ! v)))"
      and me: "map_c (evict s) = (map_c s)(key (heap s ! v) := None)"
      and hn: "hand (evict s) = before ns v"
      and sz: "size_c (evict s) = size_c s - 1"
      by blast
    have sc: "scan_spec (heap s) t ?c = (h, v)"
      using l unfolding t st evict_loop_scan_spec by (cases "scan_spec (heap s) t ?c") simp
    have pv: "prev (heap s ! v) = before ns v" using inv v by (simp add: cache_inv_def dll_def)
    have pv': "prev (h ! v) = prev (heap s ! v)" and kv: "key (h ! v) = key (heap s ! v)"
      using sw by (rule swept_fields)+
    show "\<exists>t h victim.
             tail s = Some t
             \<and> scan_spec (heap s) t (case hand s of Some r \<Rightarrow> r | None \<Rightarrow> t) = (h, victim)
             \<and> \<not> visited (h ! victim)
             \<and> getNode s (key (heap s ! victim)) = Some victim
             \<and> hand (evict s) = prev (heap s ! victim)
             \<and> evict s = snd (delete (s\<lparr>heap := h, hand := prev (h ! victim)\<rparr>)
                                 (key (h ! victim)))
             \<and> map_c (evict s) = (map_c s)(key (heap s ! victim) := None)
             \<and> size_c (evict s) = size_c s - 1"
      using t sc nv mv hn ev me sz pv pv' kv unfolding getNode_def
      by (intro exI [of _ t] exI [of _ h] exI [of _ v]) simp
  qed
  with e st show ?thesis by blast
qed

theorem C1_evict_follows_spec_witness:
  "0 < size_c (run (SieveCache_new 3) [Set ''a'' (1::nat), Set ''b'' 2, Set ''c'' 3, Get ''a''])
   \<and> evict (run (SieveCache_new 3) [Set ''a'' (1::nat), Set ''b'' 2, Set ''c'' 3, Get ''a''])
     = evict_spec (run (SieveCache_new 3) [Set ''a'' (1::nat), Set ''b'' 2, Set ''c'' 3, Get ''a''])
   \<and> getNode (evict (run (SieveCache_new 3) [Set ''a'' (1::nat), Set ''b'' 2, Set ''c'' 3, Get ''a''])) ''b''
     = None
   \<and> hand (evict (run (SieveCache_new 3) [Set ''a'' (1::nat), Set ''b'' 2, Set ''c'' 3, Get ''a'']))
     = Some 2"
proof -
  let ?s = "run (SieveCache_new 3) [Set ''a'' (1::nat), Set ''b'' 2, Set ''c'' 3, Get ''a'']"
  have sz: "0 < size_c ?s" by (simp add: cache_defs)
  have ev: "getNode (evict ?s) ''b'' = None" "hand (evict ?s) = Some 2"
    by (simp_all add: cache_defs getNode_def evict_loop.simps)
  from C1_evict_follows_spec [of ?s 3 "[Set ''a'' 1, Set ''b'' 2, Set ''c'' 3, Get ''a'']"] sz ev
  show ?thesis by blast
qed

section \<open>Iteration\<close>

lemma after_append: "distinct (xs @ r # ys) \<Longrightarrow> after (xs @ r # ys) r = hdopt ys"
proof (induction xs)
  case Nil
  then show ?case by (simp add: after_Cons)
next
  case (Cons x xs)
  then have "x \<notin> set (xs @ r # ys)" "x \<noteq> r" by auto
  then show ?case using Cons by (simp add: after_Cons del: set_append)
qed

lemma iterate_dll:
  "dll h ns \<Longrightarrow> ns = xs @ ys \<Longrightarrow> iterate h (hdopt ys) acc = Some (acc @ entries h ys)"
proof (induction ys arbitrary: xs acc)
  case Nil
  then show ?case by (simp add: iterate.simps entries_def)
next
  case (Cons y ys)
  have d: "distinct (xs @ y # ys)" and y: "y \<in> set ns" using Cons.prems by (auto simp: dll_def)
  have "nxt (h ! y) = after ns y" using Cons.prems(1) y by (simp add: dll_def)
  also have "\<dots> = hdopt ys" using d Cons.prems(2) by (simp add: after_append)
  finally have n: "nxt (h ! y) = hdopt ys" .
  have "iterate h (hdopt (y # ys)) acc = iterate h (hdopt ys) (acc @ [(key (h ! y), val (h ! y))])"
    by (subst iterate.simps) (simp add: n)
  also have "\<dots> = Some ((acc @ [(key (h ! y), val (h ! y))]) @ entries h ys)"
    using Cons.IH [of "xs @ [y]"] Cons.prems by simp
  finally show ?case by (simp add: entries_def)
qed

lemma iterator_inv: "cache_inv s ns \<Longrightarrow> iterator s = Some (entries (heap s) ns)"
  using iterate_dll [of "heap s" ns "[]" ns "[]"] by (simp add: iterator_def cache_inv_def)

lemma toArray_inv: "cache_inv s ns \<Longrightarrow> toArray s = (Some (entries (heap s) ns), s)"
  by (simp add: toArray_def iterator_inv)

lemma inv_key: "cache_inv s ns \<Longrightarrow> r \<in> set ns \<Longrightarrow> map_c s (key (heap s ! r)) = Some r"
  by (simp add: cache_inv_def)

lemma inv_map: "cache_inv s ns \<Longrightarrow> map_c s k = Some r \<Longrightarrow> r \<in> set ns \<and> key (heap s ! r) = k \<and> r < length (heap s)"
  by (auto simp: cache_inv_def dll_def)

lemma entries_keys_distinct: 
  assumes "cache_inv s ns" shows "distinct (map fst (entries (heap s) ns))"
proof -
  have "distinct ns" using assms by (simp add: cache_inv_def dll_def)
  then show ?thesis using inv_key_inj [OF assms] by (simp add: entries_def o_def distinct_map)
qed

lemma entries_keys_set: "cache_inv s ns \<Longrightarrow> set (map fst (entries (heap s) ns)) = dom (map_c s)"
  by (simp add: inv_dom entries_def o_def)

section \<open>delete and set of a present key\<close>

lemma removeNode_self:
  assumes "dll (heap s) ns" "r \<in> set ns"
  shows "heap (removeNode s r) ! r = (heap s ! r)\<lparr>nxt := None, prev := None\<rparr>"
proof -
  have d: "distinct ns" and hr: "r < length (heap s)" "prev (heap s ! r) = before ns r"
    "nxt (heap s ! r) = after ns r"
    using assms by (auto simp: dll_def)
  have pn: "\<And>p. before ns r = Some p \<Longrightarrow> p \<noteq> r \<and> p < length (heap s)"
    using before_neq [OF d] assms(1) by (auto simp: dll_def dest: before_in)
  have an: "\<And>p. after ns r = Some p \<Longrightarrow> p \<noteq> r \<and> p < length (heap s)"
    using after_neq [OF d] assms(1) by (auto simp: dll_def dest: after_in)
  show ?thesis
  proof (cases "before ns r")
    case None
    note b = this
    show ?thesis
    proof (cases "after ns r")
      case None
      with b hr show ?thesis by (simp add: removeNode_def Let_def nth_list_update)
    next
      case (Some n)
      with b hr an [OF Some] show ?thesis by (simp add: removeNode_def Let_def nth_list_update)
    qed
  next
    case (Some p)
    note b = this
    show ?thesis
    proof (cases "after ns r")
      case None
      with b hr pn [OF b] show ?thesis by (simp add: removeNode_def Let_def nth_list_update)
    next
      case (Some n)
      with b hr an [OF Some] pn [OF b] show ?thesis
        by (simp add: removeNode_def Let_def nth_list_update)
    qed
  qed
qed

lemma entries_cong:
  "(\<And>x. x \<in> set ns \<Longrightarrow> key (h' ! x) = key (h ! x) \<and> val (h' ! x) = val (h ! x))
   \<Longrightarrow> entries h' ns = entries h ns"
  by (simp add: entries_def)




text \<open>
  C7. On a cache reached by any sequence of calls, \<open>set\<close> of a key that has a node returns
  that node; the node has the new value and its flag true, its key and its links are
  the same, every other node of the store is the same, and so are head, tail, hand,
  size, capacity and the index: nothing is evicted, at size = capacity too. The chain
  holds the same keys in the same order, with the new value at that key.
\<close>

theorem C7_set_existing:
  assumes "s = run (SieveCache_new c) cs" and "map_c s k = Some r"
  shows "\<exists>s' es. set_c s k v = (r, s')
     \<and> heap s' ! r = (heap s ! r)\<lparr>val := v, visited := True\<rparr>
     \<and> (\<forall>x. x \<noteq> r \<longrightarrow> heap s' ! x = heap s ! x)
     \<and> length (heap s') = length (heap s)
     \<and> head s' = head s \<and> tail s' = tail s \<and> hand s' = hand s
     \<and> size_c s' = size_c s \<and> capacity s' = capacity s \<and> map_c s' = map_c s
     \<and> fst (toArray s) = Some es
     \<and> fst (toArray s') = Some (map (\<lambda>e. if fst e = k then (k, v) else e) es)"
proof -
  obtain ns where inv: "cache_inv s ns" using inv_run assms(1) by blast
  let ?s' = "s\<lparr>heap := (heap s)[r := (heap s ! r)\<lparr>val := v, visited := True\<rparr>]\<rparr>"
  have r: "r \<in> set ns" "key (heap s ! r) = k" "r < length (heap s)"
    using inv_map [OF inv assms(2)] by simp_all
  have st: "set_c s k v = (r, ?s')" using assms(2) by (rule set_c_existing)
  have inv': "cache_inv ?s' ns" using inv_set_existing [OF inv assms(2), of v] st by simp
  have "entries (heap ?s') ns = map (\<lambda>e. if fst e = k then (k, v) else e) (entries (heap s) ns)"
    unfolding entries_def map_map o_def
  proof (rule map_cong [OF refl])
    fix x assume x: "x \<in> set ns"
    have "key (heap s ! x) = k \<Longrightarrow> x = r" using inv_key [OF inv x] assms(2) by simp
    then show "(key (heap ?s' ! x), val (heap ?s' ! x))
           = (if fst (key (heap s ! x), val (heap s ! x)) = k then (k, v)
              else (key (heap s ! x), val (heap s ! x)))"
      using r by (auto simp: nth_list_update)
  qed
  then have "fst (toArray ?s') = Some (map (\<lambda>e. if fst e = k then (k, v) else e) (entries (heap s) ns))"
    using inv' by (simp add: toArray_inv)
  moreover have "fst (toArray s) = Some (entries (heap s) ns)" using inv by (simp add: toArray_inv)
  moreover have "heap ?s' ! r = (heap s ! r)\<lparr>val := v, visited := True\<rparr>" using r by simp
  moreover have "\<forall>x. x \<noteq> r \<longrightarrow> heap ?s' ! x = heap s ! x" by simp
  ultimately show ?thesis using st by simp
qed

theorem C7_set_existing_witness:
  "map_c (run (SieveCache_new 2) [Set ''a'' (1::nat), Set ''b'' 2]) ''a'' = Some 0
   \<and> size_c (run (SieveCache_new 2) [Set ''a'' (1::nat), Set ''b'' 2]) = 2
   \<and> capacity (run (SieveCache_new 2) [Set ''a'' (1::nat), Set ''b'' 2]) = 2
   \<and> fst (set_c (run (SieveCache_new 2) [Set ''a'' (1::nat), Set ''b'' 2]) ''a'' 7) = 0
   \<and> size_c (snd (set_c (run (SieveCache_new 2) [Set ''a'' (1::nat), Set ''b'' 2]) ''a'' 7)) = 2
   \<and> fst (toArray (snd (set_c (run (SieveCache_new 2) [Set ''a'' (1::nat), Set ''b'' 2]) ''a'' 7)))
       = Some [(''b'', 2), (''a'', 7)]"
proof -
  let ?s = "run (SieveCache_new 2) [Set ''a'' (1::nat), Set ''b'' 2]"
  have a: "map_c ?s ''a'' = Some 0" and sz: "size_c ?s = 2" and cp: "capacity ?s = 2"
    and ta: "fst (toArray ?s) = Some [(''b'', 2), (''a'', 1)]"
    by (simp_all add: cache_defs iterate.simps)
  from C7_set_existing [of ?s 2 "[Set ''a'' 1, Set ''b'' 2]" "''a''" 0 7] a sz ta
  have "fst (set_c ?s ''a'' 7) = 0 \<and> size_c (snd (set_c ?s ''a'' 7)) = 2
       \<and> fst (toArray (snd (set_c ?s ''a'' 7))) = Some [(''b'', 2), (''a'', 7)]"
    by auto
  with a sz cp show ?thesis by blast
qed

section \<open>The order of iteration\<close>

lemma entries_insert_new:
  assumes inv: "cache_inv s ns"
  shows "entries (heap (insert_new s k v)) (length (heap s) # ns) = (k, v) # entries (heap s) ns"
proof -
  have lt: "\<And>x. x \<in> set ns \<Longrightarrow> x < length (heap s)" using inv by (simp add: cache_inv_def dll_def)
  have "head s = hdopt ns" using inv by (simp add: cache_inv_def)
  then have hl: "\<And>x. head s = Some x \<Longrightarrow> x < length (heap s)"
    using lt hdopt_in [of ns] by simp
  have "entries (heap (insert_new s k v)) ns = entries (heap s) ns"
    by (rule entries_cong) (simp add: insert_new_other lt)
  then show ?thesis using insert_new_node [of s k v, OF hl] by (simp add: entries_def)
qed

lemma toArray_set_absent:
  assumes inv: "cache_inv s ns" and m: "map_c s k = None"
  shows "fst (toArray (snd (set_c s k v)))
           = map_option ((#) (k, v)) (fst (toArray (if size_c s = capacity s then evict s else s)))"
proof -
  let ?s1 = "if size_c s = capacity s then evict s else s"
  have "\<exists>ns1. cache_inv ?s1 ns1 \<and> map_c ?s1 k = None"
  proof (cases "size_c s = capacity s \<and> ns \<noteq> []")
    case True
    from evict_nonempty [OF inv] True obtain x where
      "cache_inv (evict s) (remove1 x ns)" "map_c (evict s) = (map_c s)(key (heap s ! x) := None)"
      by blast
    then show ?thesis using True m by auto
  next
    case False
    then have "?s1 = s" using inv evict_empty by auto
    then show ?thesis using inv m by auto
  qed
  then obtain ns1 where i1: "cache_inv ?s1 ns1" and m1: "map_c ?s1 k = None" by blast
  have "cache_inv (insert_new ?s1 k v) (length (heap ?s1) # ns1)"
    using i1 m1 by (rule inv_insert_new)
  then have "fst (toArray (insert_new ?s1 k v)) = Some ((k, v) # entries (heap ?s1) ns1)"
    using entries_insert_new [OF i1] by (simp add: toArray_inv)
  moreover have "fst (toArray ?s1) = Some (entries (heap ?s1) ns1)"
    using i1 by (simp add: toArray_inv)
  moreover have "snd (set_c s k v) = insert_new ?s1 k v" using m by (simp add: set_c_absent)
  ultimately show ?thesis by simp
qed

lemma inv_head_tail:
  assumes "cache_inv s ns"
  shows "head s = (case entries (heap s) ns of [] \<Rightarrow> None | e # _ \<Rightarrow> map_c s (fst e))"
    and "tail s = (if entries (heap s) ns = [] then None
                   else map_c s (fst (last (entries (heap s) ns))))"
proof -
  show "head s = (case entries (heap s) ns of [] \<Rightarrow> None | e # _ \<Rightarrow> map_c s (fst e))"
  proof (cases ns)
    case Nil
    then show ?thesis using assms by (simp add: cache_inv_def entries_def)
  next
    case (Cons a list)
    then have "map_c s (key (heap s ! a)) = Some a" using inv_key [OF assms, of a] by simp
    moreover have "head s = Some a" using assms Cons by (simp add: cache_inv_def)
    ultimately show ?thesis using Cons by (simp add: entries_def)
  qed
  show "tail s = (if entries (heap s) ns = [] then None
                   else map_c s (fst (last (entries (heap s) ns))))"
  proof (cases "ns = []")
    case True
    then show ?thesis using assms by (simp add: cache_inv_def entries_def)
  next
    case False
    then have "map_c s (key (heap s ! last ns)) = Some (last ns)"
      using inv_key [OF assms, of "last ns"] by simp
    moreover have "tail s = Some (last ns)" using assms False by (simp add: cache_inv_def lastopt_def)
    ultimately show ?thesis using False by (simp add: entries_def last_map)
  qed
qed

text \<open>
  C8, as the code has it. On a cache reached by any sequence of calls the generator ends
  and \<open>toArray\<close> returns the same pairs and leaves the cache as it was: one pair for each
  key of the index, \<open>size\<close> of them, the first the pair of the head and the last the pair
  of the tail. \<open>set\<close> of an absent key puts its pair in front of the pairs of the cache
  (after the eviction, at size = capacity). On an empty cache whose capacity is neither
  1 nor 2 (with 3 or more there is room; a capacity that is not positive never evicts),
  \<open>set\<close> of a, b and c gives the order c, b, a.
\<close>

theorem C8_iteration:
  assumes "s = run (SieveCache_new c) cs"
  shows "(\<exists>es. iterator s = Some es \<and> toArray s = (Some es, s)
            \<and> int (length es) = size_c s \<and> distinct (map fst es)
            \<and> set (map fst es) = dom (map_c s)
            \<and> head s = (case es of [] \<Rightarrow> None | e # _ \<Rightarrow> map_c s (fst e))
            \<and> tail s = (if es = [] then None else map_c s (fst (last es))))
     \<and> (map_c s k = None \<longrightarrow>
           fst (toArray (snd (set_c s k v)))
             = map_option ((#) (k, v))
                 (fst (toArray (if size_c s = capacity s then evict s else s))))
     \<and> (c \<noteq> 1 \<and> c \<noteq> 2 \<longrightarrow>
           fst (toArray (run (SieveCache_new c) [Set ''a'' va, Set ''b'' vb, Set ''c'' vc]))
             = Some [(''c'', vc), (''b'', vb), (''a'', va)])"
proof -
  obtain ns where inv: "cache_inv s ns" using inv_run assms(1) by blast
  have "iterator s = Some (entries (heap s) ns) \<and> toArray s = (Some (entries (heap s) ns), s)
            \<and> int (length (entries (heap s) ns)) = size_c s
            \<and> distinct (map fst (entries (heap s) ns))
            \<and> set (map fst (entries (heap s) ns)) = dom (map_c s)
            \<and> head s = (case entries (heap s) ns of [] \<Rightarrow> None | e # _ \<Rightarrow> map_c s (fst e))
            \<and> tail s = (if entries (heap s) ns = [] then None
                        else map_c s (fst (last (entries (heap s) ns))))"
    using iterator_inv [OF inv] toArray_inv [OF inv] inv_size [OF inv]
      entries_keys_distinct [OF inv] entries_keys_set [OF inv] inv_head_tail [OF inv]
    by (simp add: entries_def)
  then have 1: "\<exists>es. iterator s = Some es \<and> toArray s = (Some es, s)
            \<and> int (length es) = size_c s \<and> distinct (map fst es)
            \<and> set (map fst es) = dom (map_c s)
            \<and> head s = (case es of [] \<Rightarrow> None | e # _ \<Rightarrow> map_c s (fst e))
            \<and> tail s = (if es = [] then None else map_c s (fst (last es)))"
    by blast
  have 2: "map_c s k = None \<longrightarrow>
           fst (toArray (snd (set_c s k v)))
             = map_option ((#) (k, v))
                 (fst (toArray (if size_c s = capacity s then evict s else s)))"
    using toArray_set_absent [OF inv] by blast
  have 3: "c \<noteq> 1 \<and> c \<noteq> 2 \<longrightarrow>
           fst (toArray (run (SieveCache_new c) [Set ''a'' va, Set ''b'' vb, Set ''c'' vc]))
             = Some [(''c'', vc), (''b'', vb), (''a'', va)]"
    by (cases "c = 0") (simp_all add: cache_defs evict_loop.simps iterate.simps)
  from 1 2 3 show ?thesis by blast
qed

theorem C8_iteration_witness:
  "(3::int) \<noteq> 1 \<and> (3::int) \<noteq> 2
   \<and> fst (toArray (run (SieveCache_new 3) [Set ''a'' (1::nat), Set ''b'' 2, Set ''c'' 3]))
       = Some [(''c'', 3), (''b'', 2), (''a'', 1)]
   \<and> map_c (run (SieveCache_new 3) [Set ''a'' (1::nat), Set ''b'' 2]) ''c'' = None
   \<and> snd (toArray (run (SieveCache_new 3) [Set ''a'' (1::nat), Set ''b'' 2]))
       = run (SieveCache_new 3) [Set ''a'' (1::nat), Set ''b'' 2]
   \<and> fst (toArray (snd (set_c (run (SieveCache_new 3) [Set ''a'' (1::nat), Set ''b'' 2]) ''c'' 3)))
       = Some [(''c'', 3), (''b'', 2), (''a'', 1)]"
proof -
  let ?s = "run (SieveCache_new 3) [Set ''a'' (1::nat), Set ''b'' 2]"
  have m: "map_c ?s ''c'' = None" and sz: "size_c ?s \<noteq> capacity ?s"
    and ta: "fst (toArray ?s) = Some [(''b'', 2), (''a'', 1)]"
    by (simp_all add: cache_defs iterate.simps)
  from C8_iteration [of ?s 3 "[Set ''a'' 1, Set ''b'' 2]" "''c''" 3 "1::nat" "2::nat" "3::nat"]
    m sz ta
  show ?thesis by auto
qed

text \<open>
  C8, as the specification states it, names no capacity, and fails on a cache without
  room for three entries: with capacity 1, \<open>set\<close> of a, b and c leaves c alone in the
  chain; with capacity 2 it leaves c and b.
\<close>

theorem C8_counterexample:
  "fst (toArray (run (SieveCache_new 1) [Set ''a'' (1::nat), Set ''b'' 2, Set ''c'' 3]))
     = Some [(''c'', 3)]
   \<and> fst (toArray (run (SieveCache_new 1) [Set ''a'' (1::nat), Set ''b'' 2, Set ''c'' 3]))
     \<noteq> Some [(''c'', 3), (''b'', 2), (''a'', 1)]
   \<and> fst (toArray (run (SieveCache_new 2) [Set ''a'' (1::nat), Set ''b'' 2, Set ''c'' 3]))
     = Some [(''c'', 3), (''b'', 2)]"
  by (simp add: cache_defs evict_loop.simps iterate.simps)

section \<open>Capacities that are not positive\<close>

lemma set_no_evict:
  assumes inv: "cache_inv s ns" and cap: "capacity s \<le> 0" and m: "map_c s k = None"
  shows "(if size_c s = capacity s then evict s else s) = s"
    and "snd (set_c s k v) = insert_new s k v"
proof -
  show 1: "(if size_c s = capacity s then evict s else s) = s"
  proof (cases "size_c s = capacity s")
    case True
    then have "ns = []" using inv cap by (simp add: cache_inv_def)
    then show ?thesis using inv evict_empty by auto
  next
    case False
    then show ?thesis by simp
  qed
  show "snd (set_c s k v) = insert_new s k v"
    using m 1 by (simp add: set_c_absent del: if_split cong: if_cong)
qed

lemma dom_sets_zero:
  "dom (map_c (run (SieveCache_new 0) (map (\<lambda>(k, v). Set k v) kvs))) = set (map fst kvs)"
proof (induction kvs rule: rev_induct)
  case Nil
  then show ?case by (simp add: run_def SieveCache_new_def)
next
  case (snoc x xs)
  obtain k v where x: "x = (k, v)" by (cases x)
  let ?s = "run (SieveCache_new 0) (map (\<lambda>(k, v). Set k v) xs)"
  obtain ns where inv: "cache_inv ?s ns" using inv_run by blast
  have cap: "capacity ?s \<le> 0" by (simp add: capacity_run)
  show ?case
  proof (cases "map_c ?s k")
    case None
    have "map_c (snd (set_c ?s k v)) = (map_c ?s)(k \<mapsto> length (heap ?s))"
      using set_no_evict(2) [OF inv cap None, of v] by (simp add: insert_new_fields)
    then have "dom (map_c (snd (set_c ?s k v))) = insert k (dom (map_c ?s))" by simp
    then show ?thesis using snoc x by (simp add: run_snoc)
  next
    case (Some r)
    then have "k \<in> dom (map_c ?s)" by auto
    then show ?thesis using snoc x Some by (auto simp: run_snoc set_c_existing)
  qed
qed

lemma distinct_keys: "distinct (map (\<lambda>i. replicate i CHR ''a'') [0..<n])"
proof -
  have "inj_on (\<lambda>i. replicate i CHR ''a'') (set [0..<n])"
    by (rule inj_onI) (metis length_replicate)
  then show ?thesis by (simp add: distinct_map)
qed

text \<open>
  C10. The constructor returns a cache for capacity 0, and the eviction scan leaves that
  empty cache as it is. On a cache of capacity 0 reached by any sequence of calls, \<open>set\<close>
  of an absent key evicts nothing: it inserts the node, the index gains the key and
  the size grows by one. After a sequence of \<open>set\<close> calls alone the size is the number of
  distinct keys given, and is not the capacity once there is one call; every number
  \<open>n\<close> is the size after some \<open>n\<close> calls.
\<close>

theorem C10_capacity_zero:
  assumes "s = run (SieveCache_new 0) cs"
  shows "constructor 0 = Some (SieveCache_new 0 :: 'v SieveCache)
     \<and> evict (SieveCache_new 0 :: 'v SieveCache) = SieveCache_new 0
     \<and> capacity s = 0
     \<and> (map_c s k = None \<longrightarrow>
           (if size_c s = capacity s then evict s else s) = s
           \<and> snd (set_c s k v) = insert_new s k v
           \<and> map_c (snd (set_c s k v)) = (map_c s)(k \<mapsto> length (heap s))
           \<and> size_c (snd (set_c s k v)) = size_c s + 1)
     \<and> size_c (run (SieveCache_new 0 :: 'v SieveCache) (map (\<lambda>(k, v). Set k v) kvs))
         = int (card (set (map fst kvs)))
     \<and> (kvs \<noteq> [] \<longrightarrow>
           size_c (run (SieveCache_new 0 :: 'v SieveCache) (map (\<lambda>(k, v). Set k v) kvs)) > 0)
     \<and> (\<exists>ks. length ks = n
           \<and> size_c (run (SieveCache_new 0) (map (\<lambda>k. Set k v) ks)) = int n)"
proof -
  obtain ns where inv: "cache_inv s ns" using inv_run assms(1) by blast
  have cap: "capacity s = 0" using assms(1) by (simp add: capacity_run)
  have 1: "constructor 0 = Some (SieveCache_new 0 :: 'v SieveCache)" by (simp add: constructor_def)
  have 2: "evict (SieveCache_new 0 :: 'v SieveCache) = SieveCache_new 0"
    using inv_new by (rule evict_empty)
  have 3: "map_c s k = None \<longrightarrow>
           (if size_c s = capacity s then evict s else s) = s
           \<and> snd (set_c s k v) = insert_new s k v
           \<and> map_c (snd (set_c s k v)) = (map_c s)(k \<mapsto> length (heap s))
           \<and> size_c (snd (set_c s k v)) = size_c s + 1"
  proof
    assume m: "map_c s k = None"
    have cap0: "capacity s \<le> 0" using cap by simp
    have a: "(if size_c s = capacity s then evict s else s) = s"
      using inv cap0 m by (rule set_no_evict(1))
    have b: "snd (set_c s k v) = insert_new s k v"
      using inv cap0 m by (rule set_no_evict(2))
    show "(if size_c s = capacity s then evict s else s) = s
           \<and> snd (set_c s k v) = insert_new s k v
           \<and> map_c (snd (set_c s k v)) = (map_c s)(k \<mapsto> length (heap s))
           \<and> size_c (snd (set_c s k v)) = size_c s + 1"
      using a unfolding b by (simp add: insert_new_fields del: if_split cong: if_cong)
  qed
  let ?t = "run (SieveCache_new 0 :: 'v SieveCache) (map (\<lambda>(k, v). Set k v) kvs)"
  obtain ms where invt: "cache_inv ?t ms" using inv_run by blast
  have 4: "size_c ?t = int (card (set (map fst kvs)))"
    using inv_card [OF invt] by (simp add: dom_sets_zero)
  have 5: "kvs \<noteq> [] \<longrightarrow> size_c ?t > 0"
    unfolding 4 by (simp add: card_gt_0_iff)
  let ?ks = "map (\<lambda>i. replicate i CHR ''a'') [0..<n]"
  have "map (\<lambda>k. Set k v) ?ks = map (\<lambda>(k, v). Set k v) (map (\<lambda>k. (k, v)) ?ks)"
    by (simp add: o_def)
  then have "dom (map_c (run (SieveCache_new 0) (map (\<lambda>k. Set k v) ?ks))) = set ?ks"
    using dom_sets_zero [of "map (\<lambda>k. (k, v)) ?ks"] by (simp add: o_def)
  moreover obtain ps where "cache_inv (run (SieveCache_new 0) (map (\<lambda>k. Set k v) ?ks)) ps"
    using inv_run by blast
  ultimately have "size_c (run (SieveCache_new 0) (map (\<lambda>k. Set k v) ?ks)) = int (card (set ?ks))"
    using inv_card by metis
  also have "card (set ?ks) = n" using distinct_card [OF distinct_keys, of n] by simp
  finally have "length ?ks = n \<and> size_c (run (SieveCache_new 0) (map (\<lambda>k. Set k v) ?ks)) = int n"
    by simp
  then have 6: "\<exists>ks. length ks = n
           \<and> size_c (run (SieveCache_new 0) (map (\<lambda>k. Set k v) ks)) = int n"
    by blast
  from 1 2 cap 3 4 5 6 show ?thesis by blast
qed

theorem C10_capacity_zero_witness:
  "map_c (run (SieveCache_new 0) [Set ''a'' (1::nat), Set ''b'' 2]) ''c'' = None
   \<and> size_c (run (SieveCache_new 0) [Set ''a'' (1::nat), Set ''b'' 2]) = 2
   \<and> capacity (run (SieveCache_new 0) [Set ''a'' (1::nat), Set ''b'' 2]) = 0
   \<and> size_c (snd (set_c (run (SieveCache_new 0) [Set ''a'' (1::nat), Set ''b'' 2]) ''c'' 3)) = 3
   \<and> map_c (snd (set_c (run (SieveCache_new 0) [Set ''a'' (1::nat), Set ''b'' 2]) ''c'' 3))
       = (map_c (run (SieveCache_new 0) [Set ''a'' (1::nat), Set ''b'' 2]))(''c'' \<mapsto> 2)"
proof -
  let ?s = "run (SieveCache_new 0) [Set ''a'' (1::nat), Set ''b'' 2]"
  have m: "map_c ?s ''c'' = None" and sz: "size_c ?s = 2" and ln: "length (heap ?s) = 2"
    by (simp_all add: cache_defs evict_loop.simps)
  from C10_capacity_zero [where s = ?s and cs = "[Set ''a'' 1, Set ''b'' 2]" and k = "''c''"
      and v = 3] m sz ln
  show ?thesis by auto
qed

lemma later_sets:
  assumes c: "c \<le> 0"
  shows "c < size_c (snd (set_c (run (SieveCache_new c) cs) k v))
     \<and> (map_c (run (SieveCache_new c) cs) k = None \<longrightarrow>
          snd (set_c (run (SieveCache_new c) cs) k v) = insert_new (run (SieveCache_new c) cs) k v)"
proof -
  let ?t = "run (SieveCache_new c) cs"
  obtain ns where inv: "cache_inv ?t ns" using inv_run by blast
  have cap: "capacity ?t \<le> 0" using c by (simp add: capacity_run)
  have sz: "size_c ?t = int (length ns)" using inv by (rule inv_size)
  show ?thesis
  proof (cases "map_c ?t k")
    case None
    have e: "snd (set_c ?t k v) = insert_new ?t k v" using inv cap None by (rule set_no_evict(2))
    then show ?thesis using sz c by (simp add: insert_new_fields)
  next
    case (Some r)
    then have "r \<in> set ns" using inv_map [OF inv] by simp
    then have "0 < length ns" by (rule length_pos_if_in_set)
    then have "c < int (length ns)" using c by linarith
    then show ?thesis using Some sz by (simp add: set_c_existing)
  qed
qed

text \<open>
  C4, as the code has it. The constructor rejects no capacity: for every integer, positive
  or not, it returns an empty cache of that capacity. With a capacity that is not
  positive the first \<open>set\<close> returns as well, and leaves one entry in a cache whose
  capacity is below one; and after any sequence of calls a \<open>set\<close> leaves the size above
  the capacity and, for an absent key, inserts without evicting: nothing fails, at
  construction or later.
\<close>

theorem C4_constructor_accepts:
  "\<exists>s. constructor c = Some s
       \<and> heap s = [] \<and> head s = None \<and> tail s = None \<and> hand s = None
       \<and> size_c s = 0 \<and> capacity s = c \<and> map_c s = Map.empty
       \<and> (c \<le> 0 \<longrightarrow>
            fst (set_c s k v) = 0
            \<and> size_c (snd (set_c s k v)) = 1
            \<and> capacity (snd (set_c s k v)) = c
            \<and> getNode (snd (set_c s k v)) k = Some 0
            \<and> c < size_c (snd (set_c (run s cs) k v))
            \<and> (map_c (run s cs) k = None \<longrightarrow>
                 snd (set_c (run s cs) k v) = insert_new (run s cs) k v))"
proof -
  let ?s = "SieveCache_new c :: 'a SieveCache"
  have inv: "cache_inv ?s []" by (rule inv_new)
  have f: "heap ?s = []" "head ?s = None" "tail ?s = None" "hand ?s = None" "size_c ?s = 0"
    "capacity ?s = c" "map_c ?s = Map.empty"
    by (simp_all add: SieveCache_new_def)
  have "c \<le> 0 \<longrightarrow>
            fst (set_c ?s k v) = 0
            \<and> size_c (snd (set_c ?s k v)) = 1
            \<and> capacity (snd (set_c ?s k v)) = c
            \<and> getNode (snd (set_c ?s k v)) k = Some 0
            \<and> c < size_c (snd (set_c (run ?s cs) k v))
            \<and> (map_c (run ?s cs) k = None \<longrightarrow>
                 snd (set_c (run ?s cs) k v) = insert_new (run ?s cs) k v)"
  proof
    assume c: "c \<le> 0"
    have m: "map_c ?s k = None" by (simp add: f)
    have cap: "capacity ?s \<le> 0" using c by (simp add: f)
    have a: "(if size_c ?s = capacity ?s then evict ?s else ?s) = ?s"
      using inv cap m by (rule set_no_evict(1))
    have "set_c ?s k v = (length (heap ?s), insert_new ?s k v)"
      using a set_c_absent [OF m, of v] by (simp cong: if_cong)
    then have "fst (set_c ?s k v) = 0
            \<and> size_c (snd (set_c ?s k v)) = 1
            \<and> capacity (snd (set_c ?s k v)) = c
            \<and> getNode (snd (set_c ?s k v)) k = Some 0"
      by (simp add: insert_new_fields getNode_def f)
    then show "fst (set_c ?s k v) = 0
            \<and> size_c (snd (set_c ?s k v)) = 1
            \<and> capacity (snd (set_c ?s k v)) = c
            \<and> getNode (snd (set_c ?s k v)) k = Some 0
            \<and> c < size_c (snd (set_c (run ?s cs) k v))
            \<and> (map_c (run ?s cs) k = None \<longrightarrow>
                 snd (set_c (run ?s cs) k v) = insert_new (run ?s cs) k v)"
      using later_sets [OF c, of cs k v] by blast
  qed
  then show ?thesis using f by (simp add: constructor_def)
qed

theorem C4_constructor_accepts_witness:
  "(0::int) \<le> 0
   \<and> constructor 0 = Some (SieveCache_new 0 :: nat SieveCache)
   \<and> size_c (snd (set_c (SieveCache_new 0 :: nat SieveCache) ''a'' 1)) = 1
   \<and> capacity (snd (set_c (SieveCache_new 0 :: nat SieveCache) ''a'' 1)) = 0"
proof -
  have "constructor 0 = Some (SieveCache_new 0 :: nat SieveCache)" by (simp add: constructor_def)
  with C4_constructor_accepts [where c = 0 and k = "''a''" and v = "1::nat"] show ?thesis by auto
qed

text \<open>
  C4, as the specification states it, fails: the constructor returns a cache for
  capacity 0 and for capacity -1.
\<close>

theorem C4_counterexample:
  "constructor 0 \<noteq> (None :: nat SieveCache option)
   \<and> constructor (- 1) \<noteq> (None :: nat SieveCache option)
   \<and> constructor 0 = Some (SieveCache_new 0 :: nat SieveCache)"
  by (simp add: constructor_def)

section \<open>The visited flag\<close>

lemma evict_visited:
  assumes inv: "cache_inv s ns" and ne: "ns \<noteq> []"
  shows "visited (heap (evict s) ! x)
           = visited (fst (evict_loop (heap s) (tail s) (scan_start s)) ! x)"
proof -
  from evict_nonempty [OF inv ne] obtain h v where
    l: "evict_loop (heap s) (tail s) (scan_start s) = (h, Some v)"
    and v: "v \<in> set ns" and sw: "swept (heap s) h (set ns)"
    and ev: "evict s = snd (delete (s\<lparr>heap := h, hand := before ns v\<rparr>) (key (heap s ! v)))"
    and mv: "map_c s (key (heap s ! v)) = Some v"
    by blast
  let ?s2 = "s\<lparr>heap := h, hand := before ns v\<rparr>"
  let ?s3 = "?s2\<lparr>hand := (if hand ?s2 = Some v then prev (heap ?s2 ! v) else hand ?s2),
                 map_c := (map_c ?s2)(key (heap s ! v) := None)\<rparr>"
  have dl: "dll (heap ?s3) ns" using dll_swept [OF sw] inv by (simp add: cache_inv_def)
  have hp: "heap (evict s) = heap (removeNode ?s3 v)"
    unfolding ev using mv by (simp add: delete_present)
  have "visited (heap (removeNode ?s3 v) ! x) = visited (h ! x)"
  proof (cases "x = v")
    case True
    then show ?thesis using removeNode_self [OF dl v] by simp
  next
    case False
    then show ?thesis using removeNode_other [OF dl v False] by simp
  qed
  then show ?thesis using hp l by simp
qed

lemma evict_loop_cleared:
  assumes inv: "cache_inv s ns" and ne: "ns \<noteq> []"
    and a: "visited (heap s ! x)"
    and b: "\<not> visited (fst (evict_loop (heap s) (tail s) (scan_start s)) ! x)"
  shows "x \<in> set ns"
proof -
  from evict_nonempty [OF inv ne] obtain h v where
    l: "evict_loop (heap s) (tail s) (scan_start s) = (h, Some v)"
    and sw: "swept (heap s) h (set ns)"
    by blast
  have "x \<notin> set ns \<Longrightarrow> visited (h ! x)" using swept_fields(7) [OF sw, of x] a by simp
  then show ?thesis using b l by auto
qed

lemma evict_loop_mono:
  assumes inv: "cache_inv s ns" and ne: "ns \<noteq> []"
    and a: "visited (fst (evict_loop (heap s) (tail s) (scan_start s)) ! x)"
  shows "visited (heap s ! x)"
proof -
  from evict_nonempty [OF inv ne] obtain h v where
    l: "evict_loop (heap s) (tail s) (scan_start s) = (h, Some v)"
    and sw: "swept (heap s) h (set ns)"
    by blast
  show ?thesis using swept_fields(5) [OF sw, of x] a l by simp
qed

lemma visited_set_absent:
  assumes inv: "cache_inv s ns" and m: "map_c s k = None" and x: "x < length (heap s)"
  shows "visited (heap (snd (set_c s k v)) ! x)
           = (if size_c s = capacity s \<and> ns \<noteq> []
              then visited (fst (evict_loop (heap s) (tail s) (scan_start s)) ! x)
              else visited (heap s ! x))"
proof (cases "size_c s = capacity s \<and> ns \<noteq> []")
  case True
  then have ne: "ns \<noteq> []" by simp
  have ln: "length (heap (evict s)) = length (heap s)" using evict_nonempty [OF inv ne] by blast
  have "snd (set_c s k v) = insert_new (evict s) k v" using m True by (simp add: set_c_absent)
  then show ?thesis using True x ln evict_visited [OF inv ne, of x]
    by (simp add: insert_new_other)
next
  case False
  then have "(if size_c s = capacity s then evict s else s) = s" using inv evict_empty by auto
  then have "snd (set_c s k v) = insert_new s k v"
    using m by (simp add: set_c_absent del: if_split cong: if_cong)
  then have "visited (heap (snd (set_c s k v)) ! x) = visited (heap s ! x)"
    using x by (simp add: insert_new_other)
  then show ?thesis unfolding if_not_P [OF False] .
qed

lemma visited_delete:
  assumes inv: "cache_inv s ns"
  shows "visited (heap (snd (delete s k)) ! x) = visited (heap s ! x)"
proof (cases "map_c s k")
  case None
  then show ?thesis by (simp add: delete_absent)
next
  case (Some r)
  let ?s2 = "s\<lparr>hand := (if hand s = Some r then prev (heap s ! r) else hand s),
               map_c := (map_c s)(k := None)\<rparr>"
  have dl: "dll (heap ?s2) ns" using inv by (simp add: cache_inv_def)
  have r: "r \<in> set ns" using inv_map [OF inv Some] by simp
  have "visited (heap (removeNode ?s2 r) ! x) = visited (heap s ! x)"
  proof (cases "x = r")
    case True
    then show ?thesis using removeNode_self [OF dl r] by simp
  next
    case False
    then show ?thesis using removeNode_other [OF dl r False] by simp
  qed
  then show ?thesis using Some by (simp add: delete_present)
qed

lemma visited_step:
  assumes inv: "cache_inv s ns" and x: "x < length (heap s)"
  shows "visited (heap (step s call) ! x) =
     (case call of
        Set k v \<Rightarrow>
          (case map_c s k of
             Some r \<Rightarrow> visited (heap s ! x) \<or> x = r
           | None \<Rightarrow>
               if size_c s = capacity s \<and> ns \<noteq> []
               then visited (fst (evict_loop (heap s) (tail s) (scan_start s)) ! x)
               else visited (heap s ! x))
      | Get k \<Rightarrow> visited (heap s ! x) \<or> map_c s k = Some x
      | _ \<Rightarrow> visited (heap s ! x))"
proof (cases call)
  case (Set k v)
  show ?thesis
  proof (cases "map_c s k")
    case None
    then show ?thesis using Set visited_set_absent [OF inv None x, of v] by simp
  next
    case (Some r)
    then show ?thesis using Set x by (cases "x = r") (simp_all add: set_c_existing)
  qed
next
  case (Get k)
  show ?thesis
  proof (cases "map_c s k")
    case None
    then show ?thesis using Get by (simp add: get_def)
  next
    case (Some r)
    then show ?thesis using Get x by (cases "x = r") (simp_all add: get_def Let_def)
  qed
next
  case (Delete k)
  then show ?thesis using visited_delete [OF inv] by simp
qed (simp_all add: clear_def toArray_def)


subsection \<open>Which node the scan stops at\<close>

lemma before_append:
  "distinct (as @ bs) \<Longrightarrow>
   before (as @ bs) z =
     (if z \<in> set as then before as z
      else if hdopt bs = Some z then lastopt as else before bs z)"
proof (induction as)
  case Nil
  then show ?case by (auto simp: before_hd)
next
  case (Cons a as)
  then have n: "a \<notin> set (as @ bs)" and d: "distinct (as @ bs)" "a \<notin> set as" "distinct (a # as)"
    by auto
  note IH = Cons.IH [OF d(1)]
  show ?case
  proof (cases "z = a")
    case True
    have "before (a # as @ bs) a = None" using Cons.prems by (intro before_hd) simp_all
    moreover have "before (a # as) a = None" using d(3) by (intro before_hd) simp_all
    ultimately show ?thesis using True by simp
  next
    case False
    have l: "before ((a # as) @ bs) z
               = (if hdopt (as @ bs) = Some z then Some a else before (as @ bs) z)"
      using n by (simp add: before_Cons del: set_append)
    have r: "before (a # as) z = (if hdopt as = Some z then Some a else before as z)"
      using d(2) by (simp add: before_Cons)
    show ?thesis
    proof (cases as)
      case Nil
      then show ?thesis using l False by simp
    next
      case (Cons a' as')
      then have h: "hdopt (as @ bs) = hdopt as" by simp
      have ls: "lastopt (a # as) = lastopt as" using Cons by (simp add: lastopt_def)
      show ?thesis unfolding l h r using IH False ls hdopt_in [of as z] by auto
    qed
  qed
qed

lemma cpred_rotate:
  assumes d: "distinct (xs @ r # ys)" and z: "z \<in> set (xs @ r # ys)"
  shows "cpred (xs @ r # ys) z = cpred (ys @ xs @ [r]) z"
proof -
  have d2: "distinct (ys @ xs @ [r])" "distinct (xs @ [r])" "distinct xs" "distinct ys"
    "distinct (r # ys)"
    using d by auto
  have nn: "\<And>l u. distinct l \<Longrightarrow> u \<in> set l \<Longrightarrow> hdopt l \<noteq> Some u \<Longrightarrow> before l u \<noteq> None"
    by (simp add: before_None)
  consider "z \<in> set xs" | "z = r" | "z \<in> set ys" using z by auto
  then show ?thesis
  proof cases
    case 1
    then have zn: "z \<notin> set ys" "z \<noteq> r" using d by auto
    show ?thesis
    proof (cases "hdopt xs = Some z")
      case True
      then have "before xs z = None" using d2 by (simp add: before_hd)
      moreover have "hdopt (xs @ [r]) = Some z" using True by (cases xs) auto
      ultimately show ?thesis using 1 zn d d2(1)
        by (simp add: cpred_def before_append lastopt_def)
    next
      case False
      then have "before xs z \<noteq> None" using nn [OF d2(3) 1] by simp
      moreover have "hdopt (xs @ [r]) \<noteq> Some z" using False 1 by (cases xs) auto
      ultimately show ?thesis using 1 zn d d2(1) d2(2)
        by (auto simp: cpred_def before_append)
    qed
  next
    case 2
    then have zn: "z \<notin> set ys" "z \<notin> set xs" using d by auto
    show ?thesis
    proof (cases "xs = []")
      case True
      have "before (r # ys) r = None" using d2(5) by (intro before_hd) simp_all
      then show ?thesis using True 2 zn d d2(1)
        by (simp add: cpred_def before_append lastopt_def)
    next
      case False
      then have "hdopt (xs @ [r]) \<noteq> Some r" using zn 2 by (cases xs) auto
      then show ?thesis using 2 zn d d2(1) d2(2) False
        by (simp add: cpred_def before_append lastopt_def)
    qed
  next
    case 3
    then have zn: "z \<notin> set xs" "z \<noteq> r" using d by auto
    show ?thesis
    proof (cases "hdopt ys = Some z")
      case True
      then have "before ys z = None" using d2 by (simp add: before_hd)
      then show ?thesis using True 3 zn d d2(1) d2(5)
        by (simp add: cpred_def before_append before_Cons lastopt_def)
    next
      case False
      then have "before ys z \<noteq> None" using nn [OF d2(4) 3] by simp
      then show ?thesis using False 3 zn d d2(1) d2(5)
        by (auto simp: cpred_def before_append before_Cons)
    qed
  qed
qed

lemma scan_back:
  assumes "qs \<noteq> []" and "distinct (qs @ cs)"
    and "\<forall>x \<in> set (qs @ cs). x < length h \<and>
           (case prev (h ! x) of None \<Rightarrow> t | Some p \<Rightarrow> Some p) = cpred (qs @ cs) x"
    and "\<forall>c \<in> set cs. \<not> visited (h ! c)"
  shows "\<exists>h' v. evict_loop h t (Some (last qs)) = (h', Some v)
           \<and> ((\<exists>u \<in> set qs. \<not> visited (h ! u)) \<longrightarrow> v \<in> set qs \<and> \<not> visited (h ! v))
           \<and> ((\<forall>u \<in> set qs. visited (h ! u)) \<longrightarrow> v = last (qs @ cs))"
  using assms
proof (induction qs arbitrary: cs h rule: rev_induct)
  case Nil
  then show ?case by simp
next
  case (snoc q qs)
  have d: "distinct (qs @ q # cs)" using snoc.prems(2) by simp
  have links: "\<forall>x \<in> set (qs @ q # cs). x < length h \<and>
           (case prev (h ! x) of None \<Rightarrow> t | Some p \<Rightarrow> Some p) = cpred (qs @ q # cs) x"
    using snoc.prems(3) by simp
  have q: "q < length h" using links by simp
  show ?case
  proof (cases "visited (h ! q)")
    case False
    then show ?thesis using q by (simp add: evict_loop.simps)
  next
    case True
    let ?h1 = "h[q := (h ! q)\<lparr>visited := False\<rparr>]"
    have nx: "(case prev (h ! q) of None \<Rightarrow> t | Some p \<Rightarrow> Some p) = cpred (qs @ q # cs) q"
      using links by simp
    have bq: "before (qs @ q # cs) q = lastopt qs"
      using d by (simp add: before_append)
    have links1: "\<forall>x \<in> set (qs @ q # cs). x < length ?h1 \<and>
           (case prev (?h1 ! x) of None \<Rightarrow> t | Some p \<Rightarrow> Some p) = cpred (qs @ q # cs) x"
    proof
      fix x assume "x \<in> set (qs @ q # cs)"
      with links have "x < length h \<and>
           (case prev (h ! x) of None \<Rightarrow> t | Some p \<Rightarrow> Some p) = cpred (qs @ q # cs) x"
        by (rule bspec)
      moreover have "prev (?h1 ! x) = prev (h ! x)" using q by (cases "x = q") simp_all
      ultimately show "x < length ?h1 \<and>
           (case prev (?h1 ! x) of None \<Rightarrow> t | Some p \<Rightarrow> Some p) = cpred (qs @ q # cs) x"
        by simp
    qed
    have cl1: "\<forall>c \<in> set (q # cs). \<not> visited (?h1 ! c)"
      using snoc.prems(4) q by (auto simp: nth_list_update)
    have p1: "prev (?h1 ! q) = prev (h ! q)" using q by simp
    have step: "evict_loop h t (Some q)
                  = evict_loop ?h1 t (cpred (qs @ q # cs) q)"
      using q True nx by (subst evict_loop.simps) (simp add: Let_def p1)
    show ?thesis
    proof (cases "qs = []")
      case True
      have lz: "last (q # cs) < length ?h1" using links1 True by simp
      have "cpred (qs @ q # cs) q = Some (last (q # cs))"
        using bq True by (simp add: cpred_def)
      moreover have "\<not> visited (?h1 ! last (q # cs))" using cl1 by simp
      ultimately have "evict_loop h t (Some q) = (?h1, Some (last (q # cs)))"
        unfolding step by (subst evict_loop.simps) simp
      then show ?thesis using True \<open>visited (h ! q)\<close> by simp
    next
      case False
      then have c: "cpred (qs @ q # cs) q = Some (last qs)"
        using bq by (simp add: cpred_def lastopt_def)
      from snoc.IH [OF False d links1 cl1] obtain h' v where
        l: "evict_loop ?h1 t (Some (last qs)) = (h', Some v)"
        and a: "(\<exists>u \<in> set qs. \<not> visited (?h1 ! u)) \<longrightarrow> v \<in> set qs \<and> \<not> visited (?h1 ! v)"
        and b: "(\<forall>u \<in> set qs. visited (?h1 ! u)) \<longrightarrow> v = last (qs @ q # cs)"
        by blast
      have same: "\<And>u. u \<in> set qs \<Longrightarrow> visited (?h1 ! u) = visited (h ! u)"
      proof -
        fix u assume "u \<in> set qs"
        then have "u \<noteq> q" using d by auto
        then show "visited (?h1 ! u) = visited (h ! u)" by simp
      qed
      have "evict_loop h t (Some (last (qs @ [q]))) = (h', Some v)"
        using step c l by simp
      moreover have "(\<exists>u \<in> set (qs @ [q]). \<not> visited (h ! u))
                       \<longrightarrow> v \<in> set (qs @ [q]) \<and> \<not> visited (h ! v)"
        using a same True by auto
      moreover have "(\<forall>u \<in> set (qs @ [q]). visited (h ! u)) \<longrightarrow> v = last ((qs @ [q]) @ cs)"
        using b same by auto
      ultimately show ?thesis by blast
    qed
  qed
qed

lemma evict_loop_victim:
  assumes dl: "dll h ns" and r: "r \<in> set ns"
  shows "\<exists>h' v. evict_loop h (lastopt ns) (Some r) = (h', Some v)
           \<and> ((\<exists>u \<in> set ns. \<not> visited (h ! u)) \<longrightarrow> \<not> visited (h ! v))
           \<and> ((\<forall>u \<in> set ns. visited (h ! u)) \<longrightarrow> v = r)"
proof -
  from r obtain xs ys where ns: "ns = xs @ r # ys" by (auto simp: in_set_conv_decomp)
  have d: "distinct (xs @ r # ys)" using dl ns by (simp add: dll_def)
  let ?zs = "ys @ xs @ [r]"
  have s: "set ?zs = set ns" using ns by auto
  have "\<forall>x \<in> set (?zs @ []). x < length h \<and>
           (case prev (h ! x) of None \<Rightarrow> lastopt ns | Some p \<Rightarrow> Some p) = cpred (?zs @ []) x"
  proof
    fix x assume "x \<in> set (?zs @ [])"
    then have x: "x \<in> set ns" using s by auto
    then have "x < length h" "prev (h ! x) = before ns x" using dl by (simp_all add: dll_def)
    moreover have "cpred ns x = cpred ?zs x"
      using cpred_rotate [OF d, of x] x ns by simp
    ultimately show "x < length h \<and>
           (case prev (h ! x) of None \<Rightarrow> lastopt ns | Some p \<Rightarrow> Some p) = cpred (?zs @ []) x"
      by (simp add: cpred_def)
  qed
  moreover have "?zs \<noteq> []" "distinct (?zs @ [])" using d by auto
  ultimately obtain h' v where
    "evict_loop h (lastopt ns) (Some (last ?zs)) = (h', Some v)"
    "(\<exists>u \<in> set ?zs. \<not> visited (h ! u)) \<longrightarrow> v \<in> set ?zs \<and> \<not> visited (h ! v)"
    "(\<forall>u \<in> set ?zs. visited (h ! u)) \<longrightarrow> v = last (?zs @ [])"
    using scan_back [of ?zs "[]" h "lastopt ns"] by auto
  then show ?thesis unfolding s by auto
qed

lemma victim_rule:
  assumes inv: "cache_inv s ns" and ne: "ns \<noteq> []"
  shows "\<exists>h v. evict_loop (heap s) (tail s) (scan_start s) = (h, Some v) \<and> v \<in> set ns
           \<and> ((\<exists>u \<in> set ns. \<not> visited (heap s ! u)) \<longrightarrow> \<not> visited (heap s ! v))
           \<and> ((\<forall>u \<in> set ns. visited (heap s ! u)) \<longrightarrow> scan_start s = Some v)
           \<and> map_c (evict s) = (map_c s)(key (heap s ! v) := None)"
proof -
  have dl: "dll (heap s) ns" and tl: "tail s = lastopt ns" using inv by (simp_all add: cache_inv_def)
  have "\<exists>r. scan_start s = Some r \<and> r \<in> set ns"
    using inv ne by (cases "hand s") (auto simp: cache_inv_def lastopt_def scan_start_def)
  then obtain r where st: "scan_start s = Some r" and r: "r \<in> set ns" by blast
  from evict_loop_victim [OF dl r] obtain h v where
    l: "evict_loop (heap s) (lastopt ns) (Some r) = (h, Some v)"
    and r1: "(\<exists>u \<in> set ns. \<not> visited (heap s ! u)) \<longrightarrow> \<not> visited (heap s ! v)"
    and r2: "(\<forall>u \<in> set ns. visited (heap s ! u)) \<longrightarrow> v = r"
    by blast
  from evict_nonempty [OF inv ne] obtain h' v' where
    l': "evict_loop (heap s) (tail s) (scan_start s) = (h', Some v')" and v': "v' \<in> set ns"
    and me: "map_c (evict s) = (map_c s)(key (heap s ! v') := None)"
    by blast
  have "v' = v" "h' = h" using l l' st tl by simp_all
  then show ?thesis using l' v' r1 r2 me st by auto
qed

text \<open>
  C5, as the code has it. On a cache reached by any sequence of calls: \<open>set\<close> of an absent
  key returns a new node, whose flag is false; \<open>get\<close> and \<open>set\<close> of a present key leave
  the flag of its node true. The flag of a node of the store goes from false to true in
  a call only if the call is \<open>get\<close> or \<open>set\<close> of a key whose node it is. It goes from true to
  false in a call only if the call is \<open>set\<close> of an absent key at size = capacity and the
  loop of the eviction scan cleared it, the node being in the index before the call.
  That node is the victim of the scan in one case only: every node of the index had its
  flag true and the node is the one the scan started at; it is then out of the index
  after the call, and in every other case it is still in the index. In general, on a
  cache with an entry, the victim of the scan had its flag true before the scan exactly
  when every node of the index had, and it is then the node the scan started at.
\<close>

theorem C5_visited_flag:
  assumes "s = run (SieveCache_new c) cs"
  shows "(map_c s k = None \<longrightarrow>
            fst (set_c s k v) = length (heap s)
            \<and> \<not> visited (heap (snd (set_c s k v)) ! length (heap s))
            \<and> key (heap (snd (set_c s k v)) ! length (heap s)) = k
            \<and> getNode (snd (set_c s k v)) k = Some (length (heap s)))
     \<and> (\<forall>r. map_c s k = Some r \<longrightarrow>
            visited (heap (snd (get s k)) ! r) \<and> visited (heap (snd (set_c s k v)) ! r))
     \<and> (\<forall>x. x < length (heap s) \<and> \<not> visited (heap s ! x) \<and> visited (heap (step s call) ! x)
            \<longrightarrow> (\<exists>k'. map_c s k' = Some x \<and> (call = Get k' \<or> (\<exists>v'. call = Set k' v'))))
     \<and> (\<forall>x. x < length (heap s) \<and> visited (heap s ! x) \<and> \<not> visited (heap (step s call) ! x)
            \<longrightarrow> (\<exists>k' v'. call = Set k' v' \<and> map_c s k' = None \<and> size_c s = capacity s
                   \<and> getNode s (key (heap s ! x)) = Some x
                   \<and> \<not> visited (fst (evict_loop (heap s) (tail s) (scan_start s)) ! x)
                   \<and> (snd (evict_loop (heap s) (tail s) (scan_start s)) = Some x
                        \<longleftrightarrow> scan_start s = Some x
                            \<and> (\<forall>k r. map_c s k = Some r \<longrightarrow> visited (heap s ! r)))
                   \<and> getNode (step s call) (key (heap s ! x))
                       = (if snd (evict_loop (heap s) (tail s) (scan_start s)) = Some x
                          then None else Some x)))
     \<and> (0 < size_c s \<longrightarrow>
            (\<exists>victim. snd (evict_loop (heap s) (tail s) (scan_start s)) = Some victim
                \<and> getNode s (key (heap s ! victim)) = Some victim
                \<and> (visited (heap s ! victim)
                     \<longleftrightarrow> (\<forall>k r. map_c s k = Some r \<longrightarrow> visited (heap s ! r)))
                \<and> (visited (heap s ! victim) \<longrightarrow> scan_start s = Some victim)))"
proof -
  obtain ns where inv: "cache_inv s ns" using inv_run assms(1) by blast
  have 1: "map_c s k = None \<longrightarrow>
            fst (set_c s k v) = length (heap s)
            \<and> \<not> visited (heap (snd (set_c s k v)) ! length (heap s))
            \<and> key (heap (snd (set_c s k v)) ! length (heap s)) = k
            \<and> getNode (snd (set_c s k v)) k = Some (length (heap s))"
  proof
    assume m: "map_c s k = None"
    let ?s1 = "if size_c s = capacity s then evict s else s"
    have "\<exists>ns1. cache_inv ?s1 ns1 \<and> length (heap ?s1) = length (heap s)"
    proof (cases "size_c s = capacity s \<and> ns \<noteq> []")
      case True
      from evict_nonempty [OF inv] True obtain x where
        "cache_inv (evict s) (remove1 x ns)" "length (heap (evict s)) = length (heap s)"
        by blast
      then show ?thesis using True by auto
    next
      case False
      then have "?s1 = s" using inv evict_empty by auto
      then show ?thesis using inv by auto
    qed
    then obtain ns1 where i1: "cache_inv ?s1 ns1" and ln: "length (heap ?s1) = length (heap s)"
      by blast
    have "head ?s1 = hdopt ns1" "\<And>x. x \<in> set ns1 \<Longrightarrow> x < length (heap ?s1)"
      using i1 by (simp_all add: cache_inv_def dll_def)
    then have hl: "\<And>x. head ?s1 = Some x \<Longrightarrow> x < length (heap ?s1)"
      using hdopt_in [of ns1] by simp
    have st: "set_c s k v = (length (heap ?s1), insert_new ?s1 k v)"
      using m by (rule set_c_absent)
    show "fst (set_c s k v) = length (heap s)
            \<and> \<not> visited (heap (snd (set_c s k v)) ! length (heap s))
            \<and> key (heap (snd (set_c s k v)) ! length (heap s)) = k
            \<and> getNode (snd (set_c s k v)) k = Some (length (heap s))"
      unfolding st using insert_new_node [of ?s1 k v, OF hl] ln
      by (simp add: getNode_def insert_new_fields del: if_split cong: if_cong)
  qed
  have 2: "\<forall>r. map_c s k = Some r \<longrightarrow>
            visited (heap (snd (get s k)) ! r) \<and> visited (heap (snd (set_c s k v)) ! r)"
  proof (intro allI impI)
    fix r assume m: "map_c s k = Some r"
    have r: "r < length (heap s)" using inv_map [OF inv m] by simp
    show "visited (heap (snd (get s k)) ! r) \<and> visited (heap (snd (set_c s k v)) ! r)"
      using visited_step [OF inv r, of "Get k"] visited_step [OF inv r, of "Set k v"] m by simp
  qed
  have 3: "\<forall>x. x < length (heap s) \<and> \<not> visited (heap s ! x) \<and> visited (heap (step s call) ! x)
            \<longrightarrow> (\<exists>k'. map_c s k' = Some x \<and> (call = Get k' \<or> (\<exists>v'. call = Set k' v')))"
  proof (intro allI impI)
    fix x assume a: "x < length (heap s) \<and> \<not> visited (heap s ! x) \<and> visited (heap (step s call) ! x)"
    then have x: "x < length (heap s)" by simp
    show "\<exists>k'. map_c s k' = Some x \<and> (call = Get k' \<or> (\<exists>v'. call = Set k' v'))"
    proof (cases call)
      case (Set k' v')
      show ?thesis
      proof (cases "map_c s k'")
        case None
        then show ?thesis
          using a Set visited_step [OF inv x, of call] evict_loop_mono [OF inv, of x]
          by (auto split: if_splits)
      next
        case (Some r)
        then show ?thesis using a Set visited_step [OF inv x, of call] by auto
      qed
    next
      case (Get k')
      then show ?thesis using a visited_step [OF inv x, of call] by auto
    qed (use a visited_step [OF inv x, of call] in auto)
  qed
  have allv: "(\<forall>k r. map_c s k = Some r \<longrightarrow> visited (heap s ! r))
                \<longleftrightarrow> (\<forall>u \<in> set ns. visited (heap s ! u))"
    using inv_key [OF inv] inv_map [OF inv] by blast
  have 4: "(\<forall>x. x < length (heap s) \<and> visited (heap s ! x) \<and> \<not> visited (heap (step s call) ! x)
                \<longrightarrow> (\<exists>k' v'. call = Set k' v' \<and> map_c s k' = None \<and> size_c s = capacity s
                       \<and> getNode s (key (heap s ! x)) = Some x
                       \<and> \<not> visited (fst (evict_loop (heap s) (tail s) (scan_start s)) ! x)
                       \<and> (snd (evict_loop (heap s) (tail s) (scan_start s)) = Some x
                            \<longleftrightarrow> scan_start s = Some x
                                \<and> (\<forall>k r. map_c s k = Some r \<longrightarrow> visited (heap s ! r)))
                       \<and> getNode (step s call) (key (heap s ! x))
                           = (if snd (evict_loop (heap s) (tail s) (scan_start s)) = Some x
                              then None else Some x)))"
  proof (intro allI impI)
    fix x assume a: "x < length (heap s) \<and> visited (heap s ! x) \<and> \<not> visited (heap (step s call) ! x)"
    then have x: "x < length (heap s)" by simp
    let ?P = "\<lambda>k' v'. call = Set k' v' \<and> map_c s k' = None \<and> size_c s = capacity s
                   \<and> getNode s (key (heap s ! x)) = Some x
                   \<and> \<not> visited (fst (evict_loop (heap s) (tail s) (scan_start s)) ! x)
                   \<and> (snd (evict_loop (heap s) (tail s) (scan_start s)) = Some x
                        \<longleftrightarrow> scan_start s = Some x
                            \<and> (\<forall>k r. map_c s k = Some r \<longrightarrow> visited (heap s ! r)))
                   \<and> getNode (step s call) (key (heap s ! x))
                       = (if snd (evict_loop (heap s) (tail s) (scan_start s)) = Some x
                          then None else Some x)"
    show "\<exists>k' v'. ?P k' v'"
    proof (cases call)
      case (Set k' v')
      show ?thesis
      proof (cases "map_c s k'")
        case None
        have f: "size_c s = capacity s \<and> ns \<noteq> []
                 \<and> \<not> visited (fst (evict_loop (heap s) (tail s) (scan_start s)) ! x)"
          using a Set None visited_step [OF inv x, of call] by (auto split: if_splits)
        then have ne: "ns \<noteq> []" by simp
        have xs: "x \<in> set ns" using evict_loop_cleared [OF inv ne, of x] a f by simp
        then have gx: "map_c s (key (heap s ! x)) = Some x" using inv_key [OF inv] by simp
        from victim_rule [OF inv ne] obtain h w where
          l: "evict_loop (heap s) (tail s) (scan_start s) = (h, Some w)"
          and ws: "w \<in> set ns"
          and r1: "(\<exists>u \<in> set ns. \<not> visited (heap s ! u)) \<longrightarrow> \<not> visited (heap s ! w)"
          and r2: "(\<forall>u \<in> set ns. visited (heap s ! u)) \<longrightarrow> scan_start s = Some w"
          and me: "map_c (evict s) = (map_c s)(key (heap s ! w) := None)"
          by blast
        have gw: "map_c s (key (heap s ! w)) = Some w" using inv_key [OF inv ws] .
        have keq: "key (heap s ! x) = key (heap s ! w) \<longleftrightarrow> x = w" using gx gw by (metis option.inject)
        have vi: "snd (evict_loop (heap s) (tail s) (scan_start s)) = Some x
                    \<longleftrightarrow> scan_start s = Some x
                        \<and> (\<forall>k r. map_c s k = Some r \<longrightarrow> visited (heap s ! r))"
          unfolding allv using l r1 r2 a by auto
        have kk: "key (heap s ! x) \<noteq> k'" using gx None by auto
        have "step s call = insert_new (evict s) k' v'"
          using Set None f by (simp add: set_c_absent)
        then have "getNode (step s call) (key (heap s ! x))
                     = (if x = w then None else Some x)"
          using me kk keq gx by (simp add: getNode_def insert_new_fields)
        moreover have sv: "snd (evict_loop (heap s) (tail s) (scan_start s)) = Some w"
          using l by simp
        ultimately have gn: "getNode (step s call) (key (heap s ! x))
                       = (if snd (evict_loop (heap s) (tail s) (scan_start s)) = Some x
                          then None else Some x)"
          by auto
        have gx': "getNode s (key (heap s ! x)) = Some x" using gx by (simp add: getNode_def)
        have "?P k' v'" using Set None f gx' vi gn by blast
        then show ?thesis by blast
      next
        case (Some r)
        then show ?thesis using a Set visited_step [OF inv x, of call] by auto
      qed
    qed (use a visited_step [OF inv x, of call] in auto)
  qed
  have 5: "(0 < size_c s \<longrightarrow>
                (\<exists>victim. snd (evict_loop (heap s) (tail s) (scan_start s)) = Some victim
                    \<and> getNode s (key (heap s ! victim)) = Some victim
                    \<and> (visited (heap s ! victim)
                         \<longleftrightarrow> (\<forall>k r. map_c s k = Some r \<longrightarrow> visited (heap s ! r)))
                    \<and> (visited (heap s ! victim) \<longrightarrow> scan_start s = Some victim)))"
  proof
    assume "0 < size_c s"
    then have ne: "ns \<noteq> []" using inv by (rule inv_nonempty [rotated])
    from victim_rule [OF inv ne] obtain h w where
      l: "evict_loop (heap s) (tail s) (scan_start s) = (h, Some w)"
      and ws: "w \<in> set ns"
      and r1: "(\<exists>u \<in> set ns. \<not> visited (heap s ! u)) \<longrightarrow> \<not> visited (heap s ! w)"
      and r2: "(\<forall>u \<in> set ns. visited (heap s ! u)) \<longrightarrow> scan_start s = Some w"
      by blast
    have gw: "getNode s (key (heap s ! w)) = Some w"
      using inv_key [OF inv ws] by (simp add: getNode_def)
    have e: "visited (heap s ! w) \<longleftrightarrow> (\<forall>k r. map_c s k = Some r \<longrightarrow> visited (heap s ! r))"
      unfolding allv using r1 ws by blast
    have "visited (heap s ! w) \<longrightarrow> scan_start s = Some w" using e r2 unfolding allv by blast
    then show "\<exists>victim. snd (evict_loop (heap s) (tail s) (scan_start s)) = Some victim
                \<and> getNode s (key (heap s ! victim)) = Some victim
                \<and> (visited (heap s ! victim)
                     \<longleftrightarrow> (\<forall>k r. map_c s k = Some r \<longrightarrow> visited (heap s ! r)))
                \<and> (visited (heap s ! victim) \<longrightarrow> scan_start s = Some victim)"
      using l gw e by auto
  qed
  from 1 2 3 4 5 show ?thesis by blast
qed

theorem C5_visited_flag_witness:
  "0 < length (heap (run (SieveCache_new 3) [Set ''a'' (1::nat), Set ''b'' 2, Set ''c'' 3, Get ''a'']))
   \<and> visited (heap (run (SieveCache_new 3) [Set ''a'' (1::nat), Set ''b'' 2, Set ''c'' 3, Get ''a'']) ! 0)
   \<and> \<not> visited (heap (step (run (SieveCache_new 3)
                   [Set ''a'' (1::nat), Set ''b'' 2, Set ''c'' 3, Get ''a'']) (Set ''d'' 4)) ! 0)
   \<and> size_c (run (SieveCache_new 3) [Set ''a'' (1::nat), Set ''b'' 2, Set ''c'' 3, Get ''a''])
       = capacity (run (SieveCache_new 3) [Set ''a'' (1::nat), Set ''b'' 2, Set ''c'' 3, Get ''a''])
   \<and> getNode (run (SieveCache_new 3) [Set ''a'' (1::nat), Set ''b'' 2, Set ''c'' 3, Get ''a''])
         (key (heap (run (SieveCache_new 3)
                 [Set ''a'' (1::nat), Set ''b'' 2, Set ''c'' 3, Get ''a'']) ! 0))
       = Some 0
   \<and> snd (evict_loop
             (heap (run (SieveCache_new 3) [Set ''a'' (1::nat), Set ''b'' 2, Set ''c'' 3, Get ''a'']))
             (tail (run (SieveCache_new 3) [Set ''a'' (1::nat), Set ''b'' 2, Set ''c'' 3, Get ''a'']))
             (scan_start (run (SieveCache_new 3)
                [Set ''a'' (1::nat), Set ''b'' 2, Set ''c'' 3, Get ''a''])))
       = Some 1
   \<and> getNode (step (run (SieveCache_new 3)
                   [Set ''a'' (1::nat), Set ''b'' 2, Set ''c'' 3, Get ''a'']) (Set ''d'' 4))
         (key (heap (run (SieveCache_new 3)
                 [Set ''a'' (1::nat), Set ''b'' 2, Set ''c'' 3, Get ''a'']) ! 0))
       = Some 0"
proof -
  let ?s = "run (SieveCache_new 3) [Set ''a'' (1::nat), Set ''b'' 2, Set ''c'' 3, Get ''a'']"
  have a: "0 < length (heap ?s)" "visited (heap ?s ! 0)"
    "\<not> visited (heap (step ?s (Set ''d'' 4)) ! 0)"
    by (simp_all add: cache_defs evict_loop.simps)
  have v: "snd (evict_loop (heap ?s) (tail ?s) (scan_start ?s)) = Some 1"
    by (simp add: cache_defs evict_loop.simps)
  from C5_visited_flag [where s = ?s and c = 3
      and cs = "[Set ''a'' 1, Set ''b'' 2, Set ''c'' 3, Get ''a'']" and call = "Set ''d'' 4"] a
  have "\<exists>k' v'. size_c ?s = capacity ?s \<and> getNode ?s (key (heap ?s ! 0)) = Some 0
          \<and> getNode (step ?s (Set ''d'' 4)) (key (heap ?s ! 0))
              = (if snd (evict_loop (heap ?s) (tail ?s) (scan_start ?s)) = Some 0
                 then None else Some 0)"
    by blast
  then have "size_c ?s = capacity ?s \<and> getNode ?s (key (heap ?s ! 0)) = Some 0
          \<and> getNode (step ?s (Set ''d'' 4)) (key (heap ?s ! 0)) = Some 0"
    unfolding v by simp
  with a v show ?thesis by blast
qed

text \<open>
  C5, as the specification states it, fails where the scan wraps round. Capacity 1, \<open>set\<close> then
  \<open>get\<close> of a: the flag of the node of a (reference 0) is true. \<open>set\<close> of b runs the scan,
  which clears that flag, finds no predecessor, goes to the tail, the same node, and
  stops there: the node whose flag the scan reset is the victim it chose.
\<close>

theorem C5_counterexample:
  "visited (heap (run (SieveCache_new 1) [Set ''a'' (1::nat), Get ''a'']) ! 0)
   \<and> \<not> visited (heap (step (run (SieveCache_new 1) [Set ''a'' (1::nat), Get ''a''])
                         (Set ''b'' 2)) ! 0)
   \<and> snd (evict_loop (heap (run (SieveCache_new 1) [Set ''a'' (1::nat), Get ''a'']))
             (tail (run (SieveCache_new 1) [Set ''a'' (1::nat), Get ''a'']))
             (scan_start (run (SieveCache_new 1) [Set ''a'' (1::nat), Get ''a''])))
       = Some 0
   \<and> getNode (run (SieveCache_new 1) [Set ''a'' (1::nat), Get ''a'']) ''a'' = Some 0
   \<and> getNode (step (run (SieveCache_new 1) [Set ''a'' (1::nat), Get ''a'']) (Set ''b'' 2)) ''a''
       = None"
  by (simp add: cache_defs getNode_def evict_loop.simps)

end
